theory Spec2Isabelle
  imports
    Complex_Main
    "HOL-Library.Multiset"
    "HOL-Library.Sublist"
    "HOL-Library.AList"
    "HOL-Library.Char_ord"
    "HOL-Library.List_Lexorder"
begin

section \<open>Dates and times, as the segmentation code uses them\<close>

text \<open>
  \<^verbatim>\<open>process/core.py\<close> parses every message timestamp with \<^verbatim>\<open>datetime.fromisoformat\<close>,
  subtracts two parsed values and reads \<^verbatim>\<open>.hour\<close> of one. A \<^verbatim>\<open>datetime\<close> is the
  record of its fields; \<open>utcoffset\<close> is \<open>None\<close> for a naive value and the offset in
  microseconds for an aware one. The ordinal of a date and the subtraction follow the
  standard library's \<^verbatim>\<open>_ymd2ord\<close> and \<^verbatim>\<open>datetime.__sub__\<close>; the month tables are read
  for the months 1 to 12 only, which is all a parsed value can hold.
\<close>

record datetime =
  year :: int
  month :: int
  day :: int
  hour :: int
  minute :: int
  second :: int
  microsecond :: int
  utcoffset :: "int option"

datatype error = ValueError | TypeError | OverflowError | FileNotFoundError

definition is_leap :: "int \<Rightarrow> bool" where
  "is_leap y = (y mod 4 = 0 \<and> (y mod 100 \<noteq> 0 \<or> y mod 400 = 0))"

definition days_before_year :: "int \<Rightarrow> int" where
  "days_before_year y' = (let y = y' - 1 in y * 365 + y div 4 - y div 100 + y div 400)"

definition days_in_month :: "int \<Rightarrow> int \<Rightarrow> int" where
  "days_in_month y m =
     (if m = 2 \<and> is_leap y then 29
      else [31, 28, 31, 30, 31, 30, 31, 31, 30, 31, 30, 31] ! nat (m - 1))"

definition days_before_month :: "int \<Rightarrow> int \<Rightarrow> int" where
  "days_before_month y m =
     [0, 31, 59, 90, 120, 151, 181, 212, 243, 273, 304, 334] ! nat (m - 1)
       + (if m > 2 \<and> is_leap y then 1 else 0)"

definition ymd2ord :: "int \<Rightarrow> int \<Rightarrow> int \<Rightarrow> int" where
  "ymd2ord y m d = days_before_year y + days_before_month y m + d"

definition toordinal :: "datetime \<Rightarrow> int" where
  "toordinal t = ymd2ord (year t) (month t) (day t)"

text \<open>
  A \<^verbatim>\<open>timedelta\<close> is its length in microseconds. \<open>dt_sub a b\<close> is \<^verbatim>\<open>a - b\<close>:
  \<open>None\<close> is the \<^verbatim>\<open>TypeError\<close> for mixing a naive and an aware value.
\<close>

definition dt_sub :: "datetime \<Rightarrow> datetime \<Rightarrow> int option" where
  "dt_sub a b =
     (let days1 = toordinal a; days2 = toordinal b;
          secs1 = second a + minute a * 60 + hour a * 3600;
          secs2 = second b + minute b * 60 + hour b * 3600;
          base = ((days1 - days2) * 86400 + (secs1 - secs2)) * 1000000
                   + (microsecond a - microsecond b)
      in case (utcoffset a, utcoffset b) of
           (None, None) \<Rightarrow> Some base
         | (Some myoff, Some otoff) \<Rightarrow> Some (base + otoff - myoff)
         | _ \<Rightarrow> None)"

definition total_seconds :: "int \<Rightarrow> rat" where
  "total_seconds td = of_int td / 1000000"

text \<open>
  \<^verbatim>\<open>fromisoformat\<close> itself is a parameter of the model (\<open>None\<close> is its
  \<^verbatim>\<open>ValueError\<close>), so every theorem below holds for whatever the interpreter's version
  accepts. \<open>iso_seconds\<close> is the part of it that the cleaning stage's output needs:
  \<^verbatim>\<open>YYYY-MM-DDTHH:MM:SS\<close>, what \<^verbatim>\<open>isoformat()\<close> prints for a naive value at whole
  seconds. It is used for concrete runs only.
\<close>

definition digit :: "char \<Rightarrow> int option" where
  "digit c = (let n = (of_char c :: nat) in if 48 \<le> n \<and> n \<le> 57 then Some (int n - 48) else None)"

fun digits :: "string \<Rightarrow> int \<Rightarrow> int option" where
  "digits [] acc = Some acc"
| "digits (c # cs) acc = (case digit c of None \<Rightarrow> None | Some d \<Rightarrow> digits cs (acc * 10 + d))"

definition field :: "string \<Rightarrow> nat \<Rightarrow> nat \<Rightarrow> int option" where
  "field s i n = digits (take n (drop i s)) 0"

definition iso_seconds :: "string \<Rightarrow> datetime option" where
  "iso_seconds s =
     (if length s \<noteq> 19 \<or> s ! 4 \<noteq> CHR ''-'' \<or> s ! 7 \<noteq> CHR ''-'' \<or> s ! 10 \<noteq> CHR ''T''
         \<or> s ! 13 \<noteq> CHR '':'' \<or> s ! 16 \<noteq> CHR '':'' then None
      else case (field s 0 4, field s 5 2, field s 8 2, field s 11 2, field s 14 2, field s 17 2) of
        (Some y, Some m, Some d, Some hh, Some mm, Some ss) \<Rightarrow>
          if 1 \<le> y \<and> 1 \<le> m \<and> m \<le> 12 \<and> 1 \<le> d \<and> d \<le> days_in_month y m
             \<and> hh < 24 \<and> mm < 60 \<and> ss < 60
          then Some \<lparr>year = y, month = m, day = d, hour = hh, minute = mm, second = ss,
                      microsecond = 0, utcoffset = None\<rparr>
          else None
      | _ \<Rightarrow> None)"

section \<open>Messages and the continuation oracle\<close>

text \<open>
  A message is the dictionary the cleaner writes, with its three keys. The chunking
  constants are those of the source.
\<close>

record msg =
  timestamp :: string
  sender :: string
  message :: string

definition AUTO_GROUP_MINUTES :: rat where "AUTO_GROUP_MINUTES = 15"
definition LLM_QUERY_MAX_MINUTES :: rat where "LLM_QUERY_MAX_MINUTES = 240"
definition SLEEP_START_HOUR :: int where "SLEEP_START_HOUR = 0"
definition SLEEP_END_HOUR :: int where "SLEEP_END_HOUR = 10"
definition YOUR_NAME :: string where "YOUR_NAME = ''Festus''"

definition is_in_sleep_hours :: "datetime \<Rightarrow> bool" where
  "is_in_sleep_hours dt = (SLEEP_START_HOUR \<le> hour dt \<and> hour dt < SLEEP_END_HOUR)"

text \<open>
  The outcome of \<^verbatim>\<open>requests.post\<close>: the call raises (transport error, timeout), or it
  returns a response with a status code and a body; the body's \<^verbatim>\<open>.json()\<close> is
  \<open>None\<close> when it raises. A JSON object is the list of the items of the parsed dict.
\<close>

datatype json =
  JNull | JBool bool | JNum int | JStr string | JArr "json list" | JObj "(string \<times> json) list"

datatype http_outcome = Raised | Response int "json option"

text \<open>
  The network is a parameter: \<open>post k prompt\<close> is what the \<open>k\<close>-th request of the run
  (counting from 0) gets when it carries \<open>prompt\<close>. The state threaded through the
  code is the list of prompts posted so far, so "no oracle call" is "the list is
  unchanged".
\<close>

type_synonym network = "nat \<Rightarrow> string \<Rightarrow> http_outcome"

definition nl :: string where "nl = [CHR 0x0A]"

definition sender_label :: "msg list \<Rightarrow> msg \<Rightarrow> string" where
  "sender_label conversation_so_far m =
     (if sender m = sender (hd conversation_so_far) then ''User'' else ''Assistant'')"

definition last10 :: "'a list \<Rightarrow> 'a list" where
  "last10 xs = drop (length xs - 10) xs"

definition build_prompt :: "msg list \<Rightarrow> msg \<Rightarrow> string" where
  "build_prompt conversation_so_far new_message =
     (let context = ''Previous conversation:'' @ nl
            @ concat (map (\<lambda>m. ''['' @ timestamp m @ ''] '' @ sender_label conversation_so_far m
                                 @ '': '' @ message m @ nl)
                          (last10 conversation_so_far));
          context = context @ nl @ ''New message at ['' @ timestamp new_message @ '']:'' @ nl;
          context = context @ sender_label conversation_so_far new_message @ '': ''
                      @ message new_message @ nl
      in context @ nl
           @ ''Does this new message continue the same conversation, or does it start a new topic/conversation?''
           @ nl @ ''Answer with only '' @ [CHR 0x22] @ ''YES'' @ [CHR 0x22] @ '' or ''
           @ [CHR 0x22] @ ''NO'' @ [CHR 0x22] @ ''.'')"

text \<open>
  \<^verbatim>\<open>d.get(key, default)\<close>: \<open>None\<close> is the \<^verbatim>\<open>AttributeError\<close> of a value that is not a
  dict.
\<close>

fun py_get :: "json \<Rightarrow> string \<Rightarrow> json \<Rightarrow> json option" where
  "py_get (JObj kvs) k d = Some (case map_of kvs k of None \<Rightarrow> d | Some v \<Rightarrow> v)"
| "py_get _ k d = None"

text \<open>
  \<^verbatim>\<open>str.strip\<close> and \<^verbatim>\<open>str.upper\<close> are parameters of the model, as the parser is:
  Python's are Unicode-aware (\<^verbatim>\<open>upper\<close> may even change the length of a text), and
  every theorem below holds for whatever they compute. \<open>str_in\<close> is the operator
  \<^verbatim>\<open>in\<close> on two texts. A text is the list of its bytes in UTF-8, where an ASCII text
  such as \<^verbatim>\<open>YES\<close> occurs in the bytes exactly when it occurs in the characters.
\<close>

record text_ops =
  strip :: "string \<Rightarrow> string"
  upper :: "string \<Rightarrow> string"

fun str_in :: "string \<Rightarrow> string \<Rightarrow> bool" where
  "str_in needle [] = (needle = [])"
| "str_in needle (c # cs) = (prefix needle (c # cs) \<or> str_in needle cs)"

definition answer_of :: "text_ops \<Rightarrow> json \<Rightarrow> string option" where
  "answer_of ops result =
     (case py_get result ''message'' (JObj []) of
        None \<Rightarrow> None
      | Some m \<Rightarrow>
          (case py_get m ''content'' (JStr []) of
             Some (JStr s) \<Rightarrow> Some (upper ops (strip ops s))
           | _ \<Rightarrow> None))"

definition verdict :: "text_ops \<Rightarrow> http_outcome \<Rightarrow> bool" where
  "verdict ops r =
     (case r of
        Raised \<Rightarrow> False
      | Response status_code body \<Rightarrow>
          if status_code = 200 then
            (case body of
               None \<Rightarrow> False
             | Some result \<Rightarrow>
                 (case answer_of ops result of None \<Rightarrow> False | Some answer \<Rightarrow> str_in ''YES'' answer))
          else False)"

text \<open>
  \<^verbatim>\<open>ask_llm_about_continuation\<close>: the whole body stands in one \<^verbatim>\<open>try\<close>, so the
  \<^verbatim>\<open>IndexError\<close> of \<^verbatim>\<open>conversation_so_far[0]\<close> on an empty context is caught as well,
  before any request is made.
\<close>

definition ask_llm_about_continuation ::
  "text_ops \<Rightarrow> network \<Rightarrow> msg list \<Rightarrow> msg \<Rightarrow> string list \<Rightarrow> bool \<times> string list" where
  "ask_llm_about_continuation ops post conversation_so_far new_message calls =
     (if conversation_so_far = [] then (False, calls)
      else let prompt = build_prompt conversation_so_far new_message
           in (verdict ops (post (length calls) prompt), calls @ [prompt]))"

section \<open>The segmentation engine\<close>

text \<open>
  One iteration of the loop of \<^verbatim>\<open>chunk_by_llm\<close> up to the value of
  \<^verbatim>\<open>should_continue\<close>. \<^verbatim>\<open>time_diff.total_seconds() / 60\<close> is a float in the source;
  the model divides exactly. The two agree on every comparison made here: a
  \<^verbatim>\<open>timedelta\<close> is a whole number of microseconds, 900 and 14400 seconds are floats, and
  the nearest other lengths are a microsecond away, far more than the rounding error
  of the two divisions.
\<close>

definition should_continue ::
  "(string \<Rightarrow> datetime option) \<Rightarrow> text_ops \<Rightarrow> network \<Rightarrow> msg list \<Rightarrow> msg \<Rightarrow> msg
     \<Rightarrow> string list \<Rightarrow> (error + bool) \<times> string list" where
  "should_continue fromisoformat ops post current_chunk prev_msg curr_msg calls =
     (case fromisoformat (timestamp prev_msg) of
        None \<Rightarrow> (Inl ValueError, calls)
      | Some prev_time \<Rightarrow>
     (case fromisoformat (timestamp curr_msg) of
        None \<Rightarrow> (Inl ValueError, calls)
      | Some curr_time \<Rightarrow>
     (case dt_sub curr_time prev_time of
        None \<Rightarrow> (Inl TypeError, calls)
      | Some time_diff \<Rightarrow>
          let time_diff_minutes = total_seconds time_diff / 60 in
          if time_diff_minutes < AUTO_GROUP_MINUTES then (Inr True, calls)
          else if time_diff_minutes \<le> LLM_QUERY_MAX_MINUTES then
            (let (b, calls') = ask_llm_about_continuation ops post current_chunk curr_msg calls
             in (Inr b, calls'))
          else if is_in_sleep_hours curr_time then
            (let (b, calls') = ask_llm_about_continuation ops post current_chunk curr_msg calls
             in (Inr b, calls'))
          else (Inr False, calls))))"

text \<open>
  The \<^verbatim>\<open>for\<close> loop, with \<open>prev_msg\<close> the message at \<open>i - 1\<close> and the list the
  messages from \<open>i\<close> on; an exception ends it.
\<close>

fun chunk_loop ::
  "(string \<Rightarrow> datetime option) \<Rightarrow> text_ops \<Rightarrow> network \<Rightarrow> msg \<Rightarrow> msg list \<Rightarrow> msg list list
     \<Rightarrow> msg list \<Rightarrow> string list \<Rightarrow> (error + msg list list \<times> msg list) \<times> string list" where
  "chunk_loop fromisoformat ops post prev_msg [] chunks current_chunk calls =
     (Inr (chunks, current_chunk), calls)"
| "chunk_loop fromisoformat ops post prev_msg (curr_msg # rest) chunks current_chunk calls =
     (case should_continue fromisoformat ops post current_chunk prev_msg curr_msg calls of
        (Inl e, calls') \<Rightarrow> (Inl e, calls')
      | (Inr b, calls') \<Rightarrow>
          if b then chunk_loop fromisoformat ops post curr_msg rest chunks
                      (current_chunk @ [curr_msg]) calls'
          else chunk_loop fromisoformat ops post curr_msg rest (chunks @ [current_chunk])
                 [curr_msg] calls')"

definition chunk_by_llm ::
  "(string \<Rightarrow> datetime option) \<Rightarrow> text_ops \<Rightarrow> network \<Rightarrow> msg list \<Rightarrow> string list
     \<Rightarrow> (error + msg list list) \<times> string list" where
  "chunk_by_llm fromisoformat ops post messages calls =
     (case messages of
        [] \<Rightarrow> (Inr [], calls)
      | [m] \<Rightarrow> (Inr [messages], calls)
      | m0 # rest \<Rightarrow>
          (case chunk_loop fromisoformat ops post m0 rest [] [m0] calls of
             (Inl e, calls') \<Rightarrow> (Inl e, calls')
           | (Inr (chunks, current_chunk), calls') \<Rightarrow>
               (Inr (if current_chunk \<noteq> [] then chunks @ [current_chunk] else chunks), calls')))"

section \<open>The chunk-to-record converter\<close>

record turn =
  role :: string
  content :: string

record chatml =
  messages :: "turn list"
  persona :: string
  timestamp_start :: string
  timestamp_end :: string

text \<open>
  The first loop of \<^verbatim>\<open>chunk_to_chatml\<close>: the index of the first message not sent by
  \<^verbatim>\<open>YOUR_NAME\<close>; \<open>None\<close> is the loop's \<^verbatim>\<open>else\<close> branch (no \<^verbatim>\<open>break\<close>).
\<close>

fun find_start :: "msg list \<Rightarrow> nat \<Rightarrow> nat option" where
  "find_start [] i = None"
| "find_start (m # ms) i = (if sender m \<noteq> YOUR_NAME then Some i else find_start ms (Suc i))"

definition role_of :: "msg \<Rightarrow> string" where
  "role_of m = (if sender m = YOUR_NAME then ''assistant'' else ''user'')"

fun join :: "string \<Rightarrow> string list \<Rightarrow> string" where
  "join sep [] = []"
| "join sep [x] = x"
| "join sep (x # y # ys) = x @ sep @ join sep (y # ys)"

definition flush :: "turn list \<Rightarrow> string option \<Rightarrow> string list \<Rightarrow> turn list" where
  "flush merged_messages current_role current_content =
     (case current_role of
        None \<Rightarrow> merged_messages
      | Some r \<Rightarrow> merged_messages @ [\<lparr>role = r, content = join nl current_content\<rparr>])"

text \<open>The merging loop, with its three variables.\<close>

fun merge_loop ::
  "msg list \<Rightarrow> turn list \<Rightarrow> string option \<Rightarrow> string list
     \<Rightarrow> turn list \<times> string option \<times> string list" where
  "merge_loop [] merged_messages current_role current_content =
     (merged_messages, current_role, current_content)"
| "merge_loop (m # ms) merged_messages current_role current_content =
     (if Some (role_of m) = current_role
      then merge_loop ms merged_messages current_role (current_content @ [message m])
      else merge_loop ms (flush merged_messages current_role current_content)
             (Some (role_of m)) [message m])"

definition merge_messages :: "msg list \<Rightarrow> turn list" where
  "merge_messages chunk =
     (case merge_loop chunk [] None [] of
        (merged_messages, current_role, current_content) \<Rightarrow>
          flush merged_messages current_role current_content)"

definition chunk_to_chatml :: "msg list \<Rightarrow> string \<Rightarrow> chatml option" where
  "chunk_to_chatml chunk persona' =
     (if length chunk < 2 then None
      else case find_start chunk 0 of
        None \<Rightarrow> None
      | Some start_idx \<Rightarrow>
          let chunk = drop start_idx chunk;
              merged_messages = merge_messages chunk;
              has_assistant = list_ex (\<lambda>t. role t = ''assistant'') merged_messages
          in if \<not> has_assistant then None
             else Some \<lparr>messages = merged_messages, persona = persona',
                         timestamp_start = timestamp (hd chunk),
                         timestamp_end = timestamp (last chunk)\<rparr>)"

text \<open>
  The converter in the words of the specification: the leading run of self-sent
  messages is dropped, and each maximal run of messages of one role becomes one turn.
\<close>

definition trim :: "msg list \<Rightarrow> msg list" where
  "trim chunk = dropWhile (\<lambda>m. sender m = YOUR_NAME) chunk"

function merge_runs :: "msg list \<Rightarrow> turn list" where
  "merge_runs [] = []"
| "merge_runs (m # ms) =
     \<lparr>role = role_of m,
      content = join nl (map message (m # takeWhile (\<lambda>x. role_of x = role_of m) ms))\<rparr>
       # merge_runs (dropWhile (\<lambda>x. role_of x = role_of m) ms)"
  by pat_completeness auto
termination
  by (relation "measure length") (auto simp: length_dropWhile_le less_Suc_eq_le)

section \<open>The dataset splitter\<close>

text \<open>
  \<^verbatim>\<open>eval_ratio\<close> is a Python float, an IEEE 754 double: a rational that 53 bits and
  an exponent from \<open>-1074\<close> to \<open>971\<close> can hold, an infinity, or not a number (argparse
  accepts \<^verbatim>\<open>inf\<close> and \<^verbatim>\<open>nan\<close>). \<open>to_double\<close> rounds a rational to the nearest double,
  halves to the even mantissa, as the conversion of an integer or of a decimal literal
  and every float operation do. \<open>fmul\<close> is the product of two floats.
\<close>

datatype pyfloat = Finite rat | PosInf | NegInf | NaN

definition round_half_even :: "rat \<Rightarrow> int" where
  "round_half_even x =
     (let f = \<lfloor>x\<rfloor>; d = x - of_int f
      in if d < 1 / 2 then f else if 1 / 2 < d then f + 1 else if even f then f else f + 1)"

function bit_length :: "int \<Rightarrow> int" where
  "bit_length n = (if n \<le> 0 then 0 else 1 + bit_length (n div 2))"
  by pat_completeness auto
termination
  by (relation "measure nat") auto

definition pow2 :: "int \<Rightarrow> rat" where
  "pow2 e = (if 0 \<le> e then 2 ^ nat e else 1 / 2 ^ nat (- e))"

definition floor_log2 :: "rat \<Rightarrow> int" where
  "floor_log2 a =
     (case quotient_of a of
        (p, q) \<Rightarrow> let k = bit_length p - bit_length q in if pow2 k \<le> a then k else k - 1)"

definition to_double :: "rat \<Rightarrow> pyfloat" where
  "to_double x =
     (if x = 0 then Finite 0
      else let a = \<bar>x\<bar>;
               e = max (floor_log2 a) (- 1022);
               u = pow2 (e - 52);
               m = round_half_even (a / u)
           in if 1024 \<le> e \<or> (e = 1023 \<and> m = 2 ^ 53) then (if 0 < x then PosInf else NegInf)
              else Finite (if 0 < x then of_int m * u else - (of_int m * u)))"

fun fmul :: "pyfloat \<Rightarrow> pyfloat \<Rightarrow> pyfloat" where
  "fmul (Finite a) (Finite b) = to_double (a * b)"
| "fmul NaN y = NaN"
| "fmul x NaN = NaN"
| "fmul (Finite a) PosInf = (if a = 0 then NaN else if 0 < a then PosInf else NegInf)"
| "fmul (Finite a) NegInf = (if a = 0 then NaN else if 0 < a then NegInf else PosInf)"
| "fmul PosInf (Finite b) = (if b = 0 then NaN else if 0 < b then PosInf else NegInf)"
| "fmul NegInf (Finite b) = (if b = 0 then NaN else if 0 < b then NegInf else PosInf)"
| "fmul PosInf PosInf = PosInf"
| "fmul PosInf NegInf = NegInf"
| "fmul NegInf PosInf = NegInf"
| "fmul NegInf NegInf = PosInf"

text \<open>
  \<^verbatim>\<open>int(round(len(rows) * cfg.eval_ratio))\<close>: the length is converted to a float
  (\<^verbatim>\<open>OverflowError\<close> when it is too large), the product is a float, and \<^verbatim>\<open>round\<close>
  gives the nearest integer, halves to the even one; it raises \<^verbatim>\<open>ValueError\<close> on not a
  number and \<^verbatim>\<open>OverflowError\<close> on an infinity.
\<close>

definition rounded :: "nat \<Rightarrow> pyfloat \<Rightarrow> error + int" where
  "rounded n ratio =
     (case to_double (of_nat n) of
        Finite a \<Rightarrow>
          (case fmul (Finite a) ratio of
             Finite q \<Rightarrow> Inr (round_half_even q)
           | NaN \<Rightarrow> Inl ValueError
           | _ \<Rightarrow> Inl OverflowError)
      | _ \<Rightarrow> Inl OverflowError)"

text \<open>
  \<^verbatim>\<open>EvalSplitConfig\<close> without its three directories. The two bounds are Python
  integers, of either sign.
\<close>

record EvalSplitConfig =
  seed :: int
  eval_ratio :: pyfloat
  min_eval_per_persona :: int
  max_eval_per_persona :: "int option"

text \<open>\<^verbatim>\<open>xs[:k]\<close>: a negative \<open>k\<close> counts from the end.\<close>

definition slice_to :: "'a list \<Rightarrow> int \<Rightarrow> 'a list" where
  "slice_to xs k = (if 0 \<le> k then take (nat k) xs else take (length xs - nat (- k)) xs)"

text \<open>
  The generator is a parameter. \<^verbatim>\<open>random.shuffle\<close> swaps positions chosen from the
  generator's state and the list's length alone, so a shuffle is a list of positions
  \<open>perm g n\<close> together with the generator's next state, applied to any list of length
  \<open>n\<close>. A generator is \<open>sound\<close> when the positions are a permutation of \<open>0..<n\<close>.
\<close>

type_synonym 'g shuffler = "'g \<Rightarrow> nat \<Rightarrow> nat list \<times> 'g"

definition py_shuffle :: "'g shuffler \<Rightarrow> 'g \<Rightarrow> 'a list \<Rightarrow> 'a list \<times> 'g" where
  "py_shuffle perm g xs = (case perm g (length xs) of (p, g') \<Rightarrow> (map (\<lambda>i. xs ! i) p, g'))"

definition sound :: "'g shuffler \<Rightarrow> bool" where
  "sound perm = (\<forall>g n. mset (fst (perm g n)) = mset [0..<n])"

text \<open>
  \<^verbatim>\<open>split_eval\<close>: the shuffle comes first, then the rounding, which may raise, then
  the three clamps and the two comprehensions.
\<close>

definition split_eval ::
  "'g shuffler \<Rightarrow> 'r list \<Rightarrow> 'g \<Rightarrow> EvalSplitConfig \<Rightarrow> error + ('r list \<times> 'r list) \<times> 'g" where
  "split_eval perm rows rng cfg =
     (if rows = [] then Inr (([], []), rng)
      else case py_shuffle perm rng [0..<length rows] of
        (indices, rng') \<Rightarrow>
          (case rounded (length rows) (eval_ratio cfg) of
             Inl e \<Rightarrow> Inl e
           | Inr desired \<Rightarrow>
               let desired = max desired (min_eval_per_persona cfg);
                   desired = min desired (int (length rows));
                   desired = (case max_eval_per_persona cfg of
                                None \<Rightarrow> desired
                              | Some m \<Rightarrow> min desired m);
                   eval_idx = set (slice_to indices desired);
                   eval_rows = map (\<lambda>i. rows ! i) (filter (\<lambda>i. i \<in> eval_idx) [0..<length rows]);
                   remaining_rows =
                     map (\<lambda>i. rows ! i) (filter (\<lambda>i. i \<notin> eval_idx) [0..<length rows])
               in Inr ((eval_rows, remaining_rows), rng')))"










section \<open>Notions used to state the properties\<close>

text \<open>
  A list of messages is well stamped when every timestamp parses and either all parsed
  values are naive or all are aware, so that any two of them can be subtracted.
\<close>

definition naive :: "(string \<Rightarrow> datetime option) \<Rightarrow> msg \<Rightarrow> bool" where
  "naive f m = (case f (timestamp m) of None \<Rightarrow> False | Some t \<Rightarrow> utcoffset t = None)"

definition aware :: "(string \<Rightarrow> datetime option) \<Rightarrow> msg \<Rightarrow> bool" where
  "aware f m = (case f (timestamp m) of None \<Rightarrow> False | Some t \<Rightarrow> utcoffset t \<noteq> None)"

definition stamps_ok :: "(string \<Rightarrow> datetime option) \<Rightarrow> msg list \<Rightarrow> bool" where
  "stamps_ok f ms = (list_all (naive f) ms \<or> list_all (aware f) ms)"


text \<open>
  The number of eval rows in the words of the specification: the rounded product is
  raised to the minimum, then lowered to the number of rows, then lowered to the
  maximum when one is configured.
\<close>

definition clamped :: "int \<Rightarrow> nat \<Rightarrow> EvalSplitConfig \<Rightarrow> int" where
  "clamped r n cfg =
     (case max_eval_per_persona cfg of
        None \<Rightarrow> min (max r (min_eval_per_persona cfg)) (int n)
      | Some m \<Rightarrow> min (min (max r (min_eval_per_persona cfg)) (int n)) m)"

text \<open>
  The number of eval rows \<^verbatim>\<open>split_eval\<close> returns, or the exception it raises.
\<close>

definition eval_size ::
  "'g shuffler \<Rightarrow> 'r list \<Rightarrow> 'g \<Rightarrow> EvalSplitConfig \<Rightarrow> error + int" where
  "eval_size perm rows rng cfg =
     (case split_eval perm rows rng cfg of
        Inl e \<Rightarrow> Inl e
      | Inr ((eval_rows, remaining_rows), g) \<Rightarrow> Inr (int (length eval_rows)))"

section \<open>Concrete data for the runs below\<close>

text \<open>
  The two text operations on ASCII text, where they agree with Python's.
\<close>

definition is_space :: "char \<Rightarrow> bool" where
  "is_space c = (let n = (of_char c :: nat) in (9 \<le> n \<and> n \<le> 13) \<or> (28 \<le> n \<and> n \<le> 32))"

definition ascii_strip :: "string \<Rightarrow> string" where
  "ascii_strip s = rev (dropWhile is_space (rev (dropWhile is_space s)))"

definition upper_char :: "char \<Rightarrow> char" where
  "upper_char c = (let n = (of_char c :: nat) in if 97 \<le> n \<and> n \<le> 122 then char_of (n - 32) else c)"

definition ascii_upper :: "string \<Rightarrow> string" where
  "ascii_upper s = map upper_char s"

definition ascii :: text_ops where
  "ascii = \<lparr>strip = ascii_strip, upper = ascii_upper\<rparr>"

text \<open>
  Three networks: one that is unreachable, one that answers every request with status
  200 and a given text, and one that answers with a given status and no answer text.
  The messages carry the timestamps the boundary cases need.
\<close>

definition unreachable :: network where "unreachable k prompt = Raised"
definition says :: "string \<Rightarrow> network" where
  "says a k prompt = Response 200 (Some (JObj [(''message'', JObj [(''role'', JStr ''assistant''), (''content'', JStr a)])]))"

definition mk_msg :: "string \<Rightarrow> string \<Rightarrow> string \<Rightarrow> msg" where
  "mk_msg t s x = \<lparr>timestamp = t, sender = s, message = x\<rparr>"

definition sister_day :: "msg list" where
  "sister_day =
     [mk_msg ''2024-03-01T09:00:00'' ''Ada'' ''morning'',
      mk_msg ''2024-03-01T09:05:00'' ''Festus'' ''hey'',
      mk_msg ''2024-03-01T09:10:00'' ''Ada'' ''call me'',
      mk_msg ''2024-03-01T15:00:00'' ''Ada'' ''lunch?'']"

definition p_2200 :: msg where "p_2200 = mk_msg ''2024-02-29T22:00:00'' ''Ada'' ''good night''"
definition c_0300 :: msg where "c_0300 = mk_msg ''2024-03-01T03:00:00'' ''Ada'' ''still up?''"
definition p_0900 :: msg where "p_0900 = mk_msg ''2024-03-01T09:00:00'' ''Ada'' ''morning''"
definition p_1300 :: msg where "p_1300 = mk_msg ''2024-03-01T13:00:00'' ''Festus'' ''back at two''"
definition p_1344 :: msg where "p_1344 = mk_msg ''2024-03-01T13:44:59'' ''Ada'' ''one sec''"
definition p_1345 :: msg where "p_1345 = mk_msg ''2024-03-01T13:45:00'' ''Ada'' ''ok''"
definition p_1355 :: msg where "p_1355 = mk_msg ''2024-03-01T13:55:00'' ''Ada'' ''ready?''"
definition c_1400 :: msg where "c_1400 = mk_msg ''2024-03-01T14:00:00'' ''Festus'' ''here''"

definition stamp :: "int \<Rightarrow> int \<Rightarrow> int \<Rightarrow> int \<Rightarrow> int \<Rightarrow> int \<Rightarrow> datetime" where
  "stamp y mo d h mi s =
     \<lparr>year = y, month = mo, day = d, hour = h, minute = mi, second = s, microsecond = 0,
      utcoffset = None\<rparr>"

text \<open>A network that answers every request with status 200 and the given body.\<close>

definition reply :: "json \<Rightarrow> network" where
  "reply body k prompt = Response 200 (Some body)"

definition refuses :: "int \<Rightarrow> network" where
  "refuses status k prompt = Response status (Some (JObj [(''error'', JStr ''unavailable'')]))"

definition hourly :: "msg list" where
  "hourly =
     [mk_msg ''2024-03-01T11:00:00'' ''Ada'' ''are you there'',
      mk_msg ''2024-03-01T12:00:00'' ''Festus'' ''yes'',
      mk_msg ''2024-03-01T13:00:00'' ''Ada'' ''good'']"

definition own_opening :: msg where
  "own_opening = mk_msg ''2024-03-01T13:00:00'' ''Festus'' ''are you free later?''"

definition late_reply :: "msg list" where
  "late_reply =
     [mk_msg ''2024-03-01T18:00:00'' ''Festus'' ''sorry, was out'',
      mk_msg ''2024-03-01T18:01:00'' ''Festus'' ''anyone?'',
      mk_msg ''2024-03-01T18:02:00'' ''Ada'' ''hi'',
      mk_msg ''2024-03-01T18:03:00'' ''Ada'' ''there you are'',
      mk_msg ''2024-03-01T18:04:00'' ''Festus'' ''hello'']"

text \<open>
  A generator without state whose shuffle reverses the positions, and the splitter's
  default configuration (the ratio is the double nearest to 0.1) with its variants.
\<close>

definition reversal :: "unit shuffler" where
  "reversal g n = (rev [0..<n], g)"

definition default_cfg :: EvalSplitConfig where
  "default_cfg = \<lparr>seed = 42, eval_ratio = to_double (1 / 10), min_eval_per_persona = 25,
                   max_eval_per_persona = None\<rparr>"

definition capped_cfg :: "int \<Rightarrow> EvalSplitConfig" where
  "capped_cfg m = default_cfg\<lparr>max_eval_per_persona := Some m\<rparr>"

definition pair_cfg :: EvalSplitConfig where
  "pair_cfg = default_cfg\<lparr>min_eval_per_persona := 2\<rparr>"

text \<open>
  A generator for the concrete runs: its state is a number, a shuffle rotates the
  positions by the state and steps the state. \<open>byte_digest\<close> stands in for the digest
  there.
\<close>

definition rotor :: "int shuffler" where
  "rotor g n =
     (if n = 0 then ([], g + 1)
      else let k = nat (g mod int n) in (drop k [0..<n] @ take k [0..<n], g + 1))"




section \<open>Properties of the segmentation engine\<close>

subsection \<open>The chunks partition the input\<close>

lemma chunk_loop_concat:
  "chunk_loop f ops post p rest chunks cur calls = (Inr (chunks', cur'), calls')
   \<Longrightarrow> concat chunks' @ cur' = concat chunks @ cur @ rest"
  by (induction rest arbitrary: p chunks cur calls)
     (auto split: prod.splits sum.splits if_splits)

lemma ask_nonempty:
  "conv \<noteq> [] \<Longrightarrow> ask_llm_about_continuation ops post conv new calls =
     (verdict ops (post (length calls) (build_prompt conv new)), calls @ [build_prompt conv new])"
  by (simp add: ask_llm_about_continuation_def Let_def)

lemma ask_empty: "ask_llm_about_continuation ops post [] new calls = (False, calls)"
  by (simp add: ask_llm_about_continuation_def)

lemma should_continue_Inr_iff:
  "(\<exists>b calls'. should_continue f ops post cur p c calls = (Inr b, calls'))
     \<longleftrightarrow> (naive f p \<and> naive f c) \<or> (aware f p \<and> aware f c)"
  by (auto simp: should_continue_def naive_def aware_def dt_sub_def Let_def
           split: option.splits prod.splits)

lemma should_continue_cases:
  "(\<exists>b calls'. should_continue f ops post cur p c calls = (Inr b, calls'))
   \<or> (\<exists>e. should_continue f ops post cur p c calls = (Inl e, calls))"
  by (auto simp: should_continue_def Let_def split: option.splits prod.splits)

lemma chunk_loop_nonempty:
  "chunk_loop f ops post p rest chunks cur calls = (Inr (chunks', cur'), calls')
   \<Longrightarrow> cur \<noteq> [] \<Longrightarrow> [] \<notin> set chunks \<Longrightarrow> cur' \<noteq> [] \<and> [] \<notin> set chunks'"
  by (induction rest arbitrary: p chunks cur calls)
     (auto split: prod.splits sum.splits if_splits)

lemma chunk_loop_total:
  "stamps_ok f (p # rest) \<Longrightarrow> \<exists>r calls'. chunk_loop f ops post p rest chunks cur calls = (Inr r, calls')"
proof (induction rest arbitrary: p chunks cur calls)
  case Nil
  then show ?case by simp
next
  case (Cons c rest)
  from Cons.prems have pc: "(naive f p \<and> naive f c) \<or> (aware f p \<and> aware f c)"
    and tl: "stamps_ok f (c # rest)"
    by (auto simp: stamps_ok_def)
  from pc obtain b calls1 where sc: "should_continue f ops post cur p c calls = (Inr b, calls1)"
    using should_continue_Inr_iff by blast
  show ?case
    using sc Cons.IH [OF tl] by (cases b) simp_all
qed

lemma naive_not_aware: "naive f m \<Longrightarrow> aware f m \<Longrightarrow> False"
  by (auto simp: naive_def aware_def split: option.splits)

lemma chunk_loop_Inr_stamps:
  "chunk_loop f ops post p rest chunks cur calls = (Inr r, calls') \<Longrightarrow> rest \<noteq> []
   \<Longrightarrow> stamps_ok f (p # rest)"
proof (induction rest arbitrary: p chunks cur calls)
  case Nil
  then show ?case by simp
next
  case (Cons c rest)
  from Cons.prems(1) obtain b calls1 where
    sc: "should_continue f ops post cur p c calls = (Inr b, calls1)"
    by (auto split: prod.splits sum.splits)
  then have pc: "(naive f p \<and> naive f c) \<or> (aware f p \<and> aware f c)"
    using should_continue_Inr_iff by blast
  show ?case
  proof (cases "rest = []")
    case True
    with pc show ?thesis by (auto simp: stamps_ok_def)
  next
    case False
    from Cons.prems(1) sc have "\<exists>ch cu. chunk_loop f ops post c rest ch cu calls1 = (Inr r, calls')"
      by (auto split: if_splits)
    then have "stamps_ok f (c # rest)" using Cons.IH False by blast
    with pc show ?thesis
      by (auto simp: stamps_ok_def dest: naive_not_aware)
  qed
qed

lemma chunk_by_llm_returns_iff:
  "(\<exists>chunks calls'. chunk_by_llm f ops post ms calls = (Inr chunks, calls'))
     \<longleftrightarrow> length ms < 2 \<or> stamps_ok f ms"
proof (cases ms)
  case Nil
  then show ?thesis by (simp add: chunk_by_llm_def)
next
  case (Cons m0 rest)
  show ?thesis
  proof (cases rest)
    case Nil
    with Cons show ?thesis by (simp add: chunk_by_llm_def)
  next
    case (Cons m1 rest')
    have ne: "rest \<noteq> []" using Cons by simp
    show ?thesis
    proof
      assume "\<exists>chunks calls'. chunk_by_llm f ops post ms calls = (Inr chunks, calls')"
      then obtain r calls' where "chunk_loop f ops post m0 rest [] [m0] calls = (Inr r, calls')"
        using \<open>ms = m0 # rest\<close> Cons
        by (auto simp: chunk_by_llm_def split: prod.splits sum.splits)
      then show "length ms < 2 \<or> stamps_ok f ms"
        using chunk_loop_Inr_stamps [OF _ ne] \<open>ms = m0 # rest\<close> by blast
    next
      assume "length ms < 2 \<or> stamps_ok f ms"
      then have "stamps_ok f (m0 # rest)" using \<open>ms = m0 # rest\<close> Cons by simp
      from chunk_loop_total [OF this]
      obtain r calls' where "chunk_loop f ops post m0 rest [] [m0] calls = (Inr r, calls')" by blast
      then show "\<exists>chunks calls'. chunk_by_llm f ops post ms calls = (Inr chunks, calls')"
        using \<open>ms = m0 # rest\<close> Cons
        by (cases r) (auto simp: chunk_by_llm_def)
    qed
  qed
qed

lemma chunk_by_llm_concat:
  assumes "chunk_by_llm f ops post ms calls = (Inr chunks, calls')"
  shows "concat chunks = ms \<and> [] \<notin> set chunks"
proof (cases ms)
  case Nil
  with assms show ?thesis by (auto simp: chunk_by_llm_def)
next
  case (Cons m0 rest)
  show ?thesis
  proof (cases rest)
    case Nil
    with Cons assms show ?thesis by (auto simp: chunk_by_llm_def)
  next
    case (Cons m1 rest')
    from assms \<open>ms = m0 # rest\<close> Cons obtain ch cu where
      loop: "chunk_loop f ops post m0 rest [] [m0] calls = (Inr (ch, cu), calls')"
      and out: "chunks = (if cu \<noteq> [] then ch @ [cu] else ch)"
      by (auto simp: chunk_by_llm_def split: prod.splits sum.splits)
    from chunk_loop_concat [OF loop] have "concat ch @ cu = ms" using \<open>ms = m0 # rest\<close> by simp
    moreover from chunk_loop_nonempty [OF loop] have "cu \<noteq> []" "[] \<notin> set ch" by simp_all
    ultimately show ?thesis using out by simp
  qed
qed


text \<open>
  Claim C1. Whatever \<^verbatim>\<open>chunk_by_llm\<close> returns, the concatenation of its chunks is the
  input list and no chunk is empty; an empty input gives no chunk and a single message
  gives one chunk of that message, both without a request to the oracle (the list of
  prompts is unchanged). The function does return on every well-stamped input,
  whatever the network does.
\<close>

theorem chunk_by_llm_partition:
  "chunk_by_llm f ops post [] calls = (Inr [], calls)
   \<and> chunk_by_llm f ops post [m] calls = (Inr [[m]], calls)
   \<and> (\<forall>chunks calls'. chunk_by_llm f ops post ms calls = (Inr chunks, calls')
         \<longrightarrow> concat chunks = ms \<and> [] \<notin> set chunks)
   \<and> (stamps_ok f ms \<longrightarrow> (\<exists>chunks calls'. chunk_by_llm f ops post ms calls = (Inr chunks, calls')))"
proof -
  have "chunk_by_llm f ops post [] calls = (Inr [], calls)"
    and "chunk_by_llm f ops post [m] calls = (Inr [[m]], calls)"
    by (simp_all add: chunk_by_llm_def)
  moreover have "\<forall>chunks calls'. chunk_by_llm f ops post ms calls = (Inr chunks, calls')
         \<longrightarrow> concat chunks = ms \<and> [] \<notin> set chunks"
    using chunk_by_llm_concat by blast
  moreover have "stamps_ok f ms \<longrightarrow> (\<exists>chunks calls'. chunk_by_llm f ops post ms calls = (Inr chunks, calls'))"
    using chunk_by_llm_returns_iff by blast
  ultimately show ?thesis by blast
qed

theorem chunk_by_llm_partition_witness:
  "stamps_ok iso_seconds sister_day
   \<and> chunk_by_llm iso_seconds ascii unreachable sister_day [] = (Inr [take 3 sister_day, drop 3 sister_day], [])
   \<and> concat [take 3 sister_day, drop 3 sister_day] = sister_day
   \<and> [] \<notin> set [take 3 sister_day, drop 3 sister_day]"
proof -
  have ok: "stamps_ok iso_seconds sister_day" by code_simp
  have run: "chunk_by_llm iso_seconds ascii unreachable sister_day [] =
               (Inr [take 3 sister_day, drop 3 sister_day], [])"
    by code_simp
  from chunk_by_llm_partition
         [where f = iso_seconds and ops = ascii and post = unreachable and calls = "[]"
            and m = "hd sister_day" and ms = sister_day] ok run
  show ?thesis by blast
qed


subsection \<open>The gap policy\<close>

lemma should_continue_parsed:
  assumes "f (timestamp p) = Some tp" and "f (timestamp c) = Some tc" and "dt_sub tc tp = Some d"
  shows "should_continue f ops post cur p c calls =
     (if total_seconds d / 60 < 15 then (Inr True, calls)
      else if total_seconds d / 60 \<le> 240 \<or> (0 \<le> hour tc \<and> hour tc < 10) then
        (case ask_llm_about_continuation ops post cur c calls of (b, calls') \<Rightarrow> (Inr b, calls'))
      else (Inr False, calls))"
  using assms
  by (simp add: should_continue_def Let_def AUTO_GROUP_MINUTES_def LLM_QUERY_MAX_MINUTES_def
        is_in_sleep_hours_def SLEEP_START_HOUR_def SLEEP_END_HOUR_def)

text \<open>
  The loop is a single forward pass: what it does with one more message is decided
  from the state it reached on the messages before.
\<close>

lemma chunk_loop_snoc:
  "chunk_loop f ops post p0 (rest @ [c]) chunks cur calls =
     (case chunk_loop f ops post p0 rest chunks cur calls of
        (Inl e, calls1) \<Rightarrow> (Inl e, calls1)
      | (Inr (chs, cu), calls1) \<Rightarrow> chunk_loop f ops post (last (p0 # rest)) [c] chs cu calls1)"
proof (induction rest arbitrary: p0 chunks cur calls)
  case Nil
  then show ?case by simp
next
  case (Cons m rest)
  show ?case
  proof (cases "should_continue f ops post cur p0 m calls")
    case (Pair r calls')
    show ?thesis
    proof (cases r)
      case (Inl e)
      with Pair show ?thesis by simp
    next
      case (Inr b)
      with Pair Cons.IH show ?thesis by (cases b) (simp_all split: prod.splits sum.splits)
    qed
  qed
qed

lemma chunk_loop_last:
  "chunk_loop f ops post prev [c] chs cu calls1 =
     (case should_continue f ops post cu prev c calls1 of
        (Inl e, calls2) \<Rightarrow> (Inl e, calls2)
      | (Inr b, calls2) \<Rightarrow> (Inr (if b then (chs, cu @ [c]) else (chs @ [cu], [c])), calls2))"
  by (simp split: prod.splits sum.splits)

lemma chunk_by_llm_loop:
  "rest \<noteq> [] \<Longrightarrow> chunk_by_llm f ops post (m0 # rest) calls =
     (case chunk_loop f ops post m0 rest [] [m0] calls of
        (Inl e, calls') \<Rightarrow> (Inl e, calls')
      | (Inr (chunks, current_chunk), calls') \<Rightarrow>
          (Inr (if current_chunk \<noteq> [] then chunks @ [current_chunk] else chunks), calls'))"
  by (cases rest) (simp_all add: chunk_by_llm_def)

lemma chunk_by_llm_snoc:
  assumes "chunk_by_llm f ops post (ms @ [p]) calls = (Inr chunks, calls1)"
  shows "chunks \<noteq> [] \<and> last chunks \<noteq> []
    \<and> chunk_by_llm f ops post (ms @ [p, c]) calls =
       (case should_continue f ops post (last chunks) p c calls1 of
          (Inl e, calls2) \<Rightarrow> (Inl e, calls2)
        | (Inr b, calls2) \<Rightarrow>
            (Inr (if b then butlast chunks @ [last chunks @ [c]] else chunks @ [[c]]), calls2))"
proof (cases ms)
  case Nil
  with assms have "chunks = [[p]]" and "calls1 = calls" by (simp_all add: chunk_by_llm_def)
  then show ?thesis
    using Nil by (simp add: chunk_by_llm_def split: prod.splits sum.splits)
next
  case (Cons m0 ms')
  then have shape: "ms @ [p] = m0 # (ms' @ [p])" "ms @ [p, c] = m0 # ((ms' @ [p]) @ [c])"
    by simp_all
  from assms obtain chs cu where
    loop: "chunk_loop f ops post m0 (ms' @ [p]) [] [m0] calls = (Inr (chs, cu), calls1)"
    and out: "chunks = (if cu \<noteq> [] then chs @ [cu] else chs)"
    unfolding shape(1)
    by (auto simp: chunk_by_llm_loop split: prod.splits sum.splits)
  from chunk_loop_nonempty [OF loop] have ne: "cu \<noteq> []" by simp
  with out have chunks: "chunks = chs @ [cu]" by simp
  have l: "last (m0 # (ms' @ [p])) = p" by simp
  have ne2: "(ms' @ [p]) @ [c] \<noteq> []" by simp
  have "chunk_loop f ops post m0 ((ms' @ [p]) @ [c]) [] [m0] calls =
          (case chunk_loop f ops post m0 (ms' @ [p]) [] [m0] calls of
             (Inl e, calls1) \<Rightarrow> (Inl e, calls1)
           | (Inr (chs, cu), calls1) \<Rightarrow>
               chunk_loop f ops post (last (m0 # (ms' @ [p]))) [c] chs cu calls1)"
    by (rule chunk_loop_snoc)
  then have step: "chunk_loop f ops post m0 ((ms' @ [p]) @ [c]) [] [m0] calls =
               chunk_loop f ops post p [c] chs cu calls1"
    by (simp only: loop l prod.case sum.case)
  have unfolded: "chunk_by_llm f ops post (ms @ [p, c]) calls =
          (case chunk_loop f ops post p [c] chs cu calls1 of
             (Inl e, calls') \<Rightarrow> (Inl e, calls')
           | (Inr (chunks', current_chunk), calls') \<Rightarrow>
               (Inr (if current_chunk \<noteq> [] then chunks' @ [current_chunk] else chunks'), calls'))"
    unfolding shape(2)
    by (simp only: chunk_by_llm_loop [OF ne2] step)
  have "chunk_by_llm f ops post (ms @ [p, c]) calls =
       (case should_continue f ops post cu p c calls1 of
          (Inl e, calls2) \<Rightarrow> (Inl e, calls2)
        | (Inr b, calls2) \<Rightarrow> (Inr (if b then chs @ [cu @ [c]] else chs @ [cu, [c]]), calls2))"
  proof (cases "should_continue f ops post cu p c calls1")
    case (Pair r calls2)
    show ?thesis
    proof (cases r)
      case (Inl e)
      with Pair show ?thesis unfolding unfolded by simp
    next
      case (Inr b)
      with Pair show ?thesis unfolding unfolded by (cases b) simp_all
    qed
  qed
  moreover have "butlast chunks = chs" "last chunks = cu" "chunks @ [[c]] = chs @ [cu, [c]]"
    by (simp_all add: chunks)
  ultimately show ?thesis
    using ne by (simp only: chunks) simp
qed

text \<open>
  Claim C2. Let \<open>p\<close> and \<open>c\<close> be consecutive messages anywhere in the input, with
  timestamps that parse and subtract to \<open>d\<close> microseconds, and let the engine's result
  on the messages up to \<open>p\<close> be \<open>chunks\<close>, with \<open>calls1\<close> the prompts posted so far;
  the current chunk is the last of \<open>chunks\<close>. Below 15 minutes no request is made and
  the result up to \<open>c\<close> is \<open>chunks\<close> with \<open>c\<close> appended to the current chunk. From 15
  to 240 minutes, and above 240 minutes when the hour of \<open>c\<close> is in 0..9, exactly one
  request is made, with the prompt built from the current chunk and \<open>c\<close>, and \<open>c\<close> is
  appended iff the answer is yes; otherwise \<open>c\<close> opens a new chunk. Above 240 minutes
  at any other hour no request is made and \<open>c\<close> opens a new chunk.
\<close>

theorem gap_policy:
  assumes "chunk_by_llm f ops post (ms @ [p]) calls = (Inr chunks, calls1)"
    and "f (timestamp p) = Some tp" and "f (timestamp c) = Some tc"
    and "dt_sub tc tp = Some d"
  shows
    "(total_seconds d / 60 < 15 \<longrightarrow>
        should_continue f ops post (last chunks) p c calls1 = (Inr True, calls1)
        \<and> chunk_by_llm f ops post (ms @ [p, c]) calls =
            (Inr (butlast chunks @ [last chunks @ [c]]), calls1))
     \<and> ((15 \<le> total_seconds d / 60 \<and> total_seconds d / 60 \<le> 240)
         \<or> (240 < total_seconds d / 60 \<and> 0 \<le> hour tc \<and> hour tc < 10) \<longrightarrow>
        should_continue f ops post (last chunks) p c calls1 =
          (Inr (verdict ops (post (length calls1) (build_prompt (last chunks) c))),
           calls1 @ [build_prompt (last chunks) c])
        \<and> chunk_by_llm f ops post (ms @ [p, c]) calls =
            (Inr (if verdict ops (post (length calls1) (build_prompt (last chunks) c))
                  then butlast chunks @ [last chunks @ [c]] else chunks @ [[c]]),
             calls1 @ [build_prompt (last chunks) c]))
     \<and> (240 < total_seconds d / 60 \<and> \<not> (0 \<le> hour tc \<and> hour tc < 10) \<longrightarrow>
        should_continue f ops post (last chunks) p c calls1 = (Inr False, calls1)
        \<and> chunk_by_llm f ops post (ms @ [p, c]) calls = (Inr (chunks @ [[c]]), calls1))"
proof -
  note snoc = chunk_by_llm_snoc [OF assms(1), of c]
  then have cur: "last chunks \<noteq> []" by simp
  note sc = should_continue_parsed [OF assms(2-4), of ops post "last chunks" calls1]
  have short: "total_seconds d / 60 < 15 \<longrightarrow>
        should_continue f ops post (last chunks) p c calls1 = (Inr True, calls1)
        \<and> chunk_by_llm f ops post (ms @ [p, c]) calls =
            (Inr (butlast chunks @ [last chunks @ [c]]), calls1)"
    using snoc by (simp add: sc)
  have consult: "(15 \<le> total_seconds d / 60 \<and> total_seconds d / 60 \<le> 240)
         \<or> (240 < total_seconds d / 60 \<and> 0 \<le> hour tc \<and> hour tc < 10) \<longrightarrow>
        should_continue f ops post (last chunks) p c calls1 =
          (Inr (verdict ops (post (length calls1) (build_prompt (last chunks) c))),
           calls1 @ [build_prompt (last chunks) c])
        \<and> chunk_by_llm f ops post (ms @ [p, c]) calls =
            (Inr (if verdict ops (post (length calls1) (build_prompt (last chunks) c))
                  then butlast chunks @ [last chunks @ [c]] else chunks @ [[c]]),
             calls1 @ [build_prompt (last chunks) c])"
  proof
    assume band: "(15 \<le> total_seconds d / 60 \<and> total_seconds d / 60 \<le> 240)
         \<or> (240 < total_seconds d / 60 \<and> 0 \<le> hour tc \<and> hour tc < 10)"
    then have dec: "should_continue f ops post (last chunks) p c calls1 =
          (Inr (verdict ops (post (length calls1) (build_prompt (last chunks) c))),
           calls1 @ [build_prompt (last chunks) c])"
      by (auto simp: sc ask_nonempty [OF cur])
    with snoc show "should_continue f ops post (last chunks) p c calls1 =
          (Inr (verdict ops (post (length calls1) (build_prompt (last chunks) c))),
           calls1 @ [build_prompt (last chunks) c])
        \<and> chunk_by_llm f ops post (ms @ [p, c]) calls =
            (Inr (if verdict ops (post (length calls1) (build_prompt (last chunks) c))
                  then butlast chunks @ [last chunks @ [c]] else chunks @ [[c]]),
             calls1 @ [build_prompt (last chunks) c])"
      by simp
  qed
  have long: "240 < total_seconds d / 60 \<and> \<not> (0 \<le> hour tc \<and> hour tc < 10) \<longrightarrow>
        should_continue f ops post (last chunks) p c calls1 = (Inr False, calls1)
        \<and> chunk_by_llm f ops post (ms @ [p, c]) calls = (Inr (chunks @ [[c]]), calls1)"
    using snoc by (auto simp: sc)
  from short consult long show ?thesis by blast
qed

lemma parse_2200: "iso_seconds (timestamp p_2200) = Some (stamp 2024 2 29 22 0 0)" by code_simp
lemma parse_0300: "iso_seconds (timestamp c_0300) = Some (stamp 2024 3 1 3 0 0)" by code_simp
lemma parse_0900: "iso_seconds (timestamp p_0900) = Some (stamp 2024 3 1 9 0 0)" by code_simp
lemma parse_1300: "iso_seconds (timestamp p_1300) = Some (stamp 2024 3 1 13 0 0)" by code_simp
lemma parse_1344: "iso_seconds (timestamp p_1344) = Some (stamp 2024 3 1 13 44 59)" by code_simp
lemma parse_1345: "iso_seconds (timestamp p_1345) = Some (stamp 2024 3 1 13 45 0)" by code_simp
lemma parse_1355: "iso_seconds (timestamp p_1355) = Some (stamp 2024 3 1 13 55 0)" by code_simp
lemma parse_1400: "iso_seconds (timestamp c_1400) = Some (stamp 2024 3 1 14 0 0)" by code_simp

lemma gap_night: "dt_sub (stamp 2024 3 1 3 0 0) (stamp 2024 2 29 22 0 0) = Some 18000000000" by code_simp
lemma gap_day: "dt_sub (stamp 2024 3 1 14 0 0) (stamp 2024 3 1 9 0 0) = Some 18000000000" by code_simp
lemma gap_hour: "dt_sub (stamp 2024 3 1 14 0 0) (stamp 2024 3 1 13 0 0) = Some 3600000000" by code_simp
lemma gap_901: "dt_sub (stamp 2024 3 1 14 0 0) (stamp 2024 3 1 13 44 59) = Some 901000000" by code_simp
lemma gap_900: "dt_sub (stamp 2024 3 1 14 0 0) (stamp 2024 3 1 13 45 0) = Some 900000000" by code_simp
lemma gap_300: "dt_sub (stamp 2024 3 1 14 0 0) (stamp 2024 3 1 13 55 0) = Some 300000000" by code_simp

lemma verdict_unreachable: "verdict ops (unreachable k q) = False"
  by (simp add: unreachable_def verdict_def)

lemma verdict_says_yes: "verdict ascii (says ''Yes.'' k q) = True"
  by code_simp

lemma hour_stamp: "hour (stamp y mo d h mi s) = h"
  by (simp add: stamp_def)

lemma single_message: "chunk_by_llm f ops post ([] @ [m]) calls = (Inr [[m]], calls)"
  by (simp add: chunk_by_llm_def)

lemma sister_morning:
  "chunk_by_llm iso_seconds ascii unreachable (take 2 sister_day @ [sister_day ! 2]) []
     = (Inr [take 3 sister_day], [])"
  by code_simp

lemma sister_parts: "take 2 sister_day @ [sister_day ! 2, sister_day ! 3] = sister_day"
  by (simp add: sister_day_def)

lemma parse_sister:
  "iso_seconds (timestamp (sister_day ! 2)) = Some (stamp 2024 3 1 9 10 0)"
  "iso_seconds (timestamp (sister_day ! 3)) = Some (stamp 2024 3 1 15 0 0)"
  "dt_sub (stamp 2024 3 1 15 0 0) (stamp 2024 3 1 9 10 0) = Some 21000000000"
  by code_simp+

theorem gap_policy_witness:
  "chunk_by_llm iso_seconds ascii unreachable [p_1355, c_1400] [] = (Inr [[p_1355, c_1400]], [])
   \<and> chunk_by_llm iso_seconds ascii (says ''Yes.'') [p_1300, c_1400] [] =
       (Inr [[p_1300, c_1400]], [build_prompt [p_1300] c_1400])
   \<and> chunk_by_llm iso_seconds ascii unreachable [p_2200, c_0300] [] =
       (Inr [[p_2200], [c_0300]], [build_prompt [p_2200] c_0300])
   \<and> chunk_by_llm iso_seconds ascii (says ''Yes.'') [p_0900, c_1400] [] =
       (Inr [[p_0900], [c_1400]], [])
   \<and> chunk_by_llm iso_seconds ascii unreachable sister_day [] =
       (Inr [take 3 sister_day, [sister_day ! 3]], [])"
proof -
  have a: "chunk_by_llm iso_seconds ascii unreachable [p_1355, c_1400] [] =
      (Inr [[p_1355, c_1400]], [])"
    using gap_policy [OF single_message parse_1355 parse_1400 gap_300,
        where ops = ascii and post = unreachable and calls = "[]"]
    by (simp add: total_seconds_def)
  have b: "chunk_by_llm iso_seconds ascii (says ''Yes.'') [p_1300, c_1400] [] =
       (Inr [[p_1300, c_1400]], [build_prompt [p_1300] c_1400])"
    using gap_policy [OF single_message parse_1300 parse_1400 gap_hour,
        where ops = ascii and post = "says ''Yes.''" and calls = "[]"]
    by (simp add: total_seconds_def verdict_says_yes)
  have c: "chunk_by_llm iso_seconds ascii unreachable [p_2200, c_0300] [] =
       (Inr [[p_2200], [c_0300]], [build_prompt [p_2200] c_0300])"
    using gap_policy [OF single_message parse_2200 parse_0300 gap_night,
        where ops = ascii and post = unreachable and calls = "[]"]
    by (simp add: total_seconds_def verdict_unreachable hour_stamp)
  have d: "chunk_by_llm iso_seconds ascii (says ''Yes.'') [p_0900, c_1400] [] =
       (Inr [[p_0900], [c_1400]], [])"
    using gap_policy [OF single_message parse_0900 parse_1400 gap_day,
        where ops = ascii and post = "says ''Yes.''" and calls = "[]"]
    by (simp add: total_seconds_def hour_stamp)
  have e: "chunk_by_llm iso_seconds ascii unreachable sister_day [] =
       (Inr [take 3 sister_day, [sister_day ! 3]], [])"
    using gap_policy [OF sister_morning parse_sister]
    by (simp add: total_seconds_def hour_stamp sister_parts)
  from a b c d e show ?thesis by blast
qed

lemma two_messages:
  assumes "f (timestamp p) = Some tp" and "f (timestamp c) = Some tc" and "dt_sub tc tp = Some d"
  shows "chunk_by_llm f ops post [p, c] calls =
     (if total_seconds d / 60 < 15 then (Inr [[p, c]], calls)
      else if total_seconds d / 60 \<le> 240 \<or> (0 \<le> hour tc \<and> hour tc < 10) then
        (Inr (if verdict ops (post (length calls) (build_prompt [p] c)) then [[p, c]] else [[p], [c]]),
         calls @ [build_prompt [p] c])
      else (Inr [[p], [c]], calls))"
  by (simp add: chunk_by_llm_def should_continue_parsed [OF assms] ask_nonempty)

text \<open>
  Claim C3, as amended. For two messages whose timestamps parse and subtract to \<open>d\<close>
  microseconds: a gap of exactly 15 minutes makes exactly one request to the oracle
  (the comparison with 15 is strict), and the two messages share a chunk iff the
  answer is yes; so does a gap of 15 minutes and one second with the current message
  at 14 hours, and a gap of 5 hours with the current message at 3 hours; a gap of 5
  hours with the current message at 14 hours splits with no request.
\<close>

theorem gap_boundaries:
  assumes "f (timestamp p) = Some tp" and "f (timestamp c) = Some tc" and "dt_sub tc tp = Some d"
  shows
    "(d = 15 * 60 * 1000000
        \<or> (d = (15 * 60 + 1) * 1000000 \<and> hour tc = 14)
        \<or> (d = 5 * 3600 * 1000000 \<and> hour tc = 3) \<longrightarrow>
        chunk_by_llm f ops post [p, c] calls =
          (Inr (if verdict ops (post (length calls) (build_prompt [p] c)) then [[p, c]] else [[p], [c]]),
           calls @ [build_prompt [p] c]))
     \<and> (d = 5 * 3600 * 1000000 \<and> hour tc = 14 \<longrightarrow>
        chunk_by_llm f ops post [p, c] calls = (Inr [[p], [c]], calls))"
  by (auto simp: two_messages [OF assms] total_seconds_def)

theorem gap_boundaries_witness:
  "chunk_by_llm iso_seconds ascii (says ''Yes.'') [p_1345, c_1400] [] =
      (Inr [[p_1345, c_1400]], [build_prompt [p_1345] c_1400])
   \<and> chunk_by_llm iso_seconds ascii unreachable [p_1344, c_1400] [] =
      (Inr [[p_1344], [c_1400]], [build_prompt [p_1344] c_1400])
   \<and> chunk_by_llm iso_seconds ascii unreachable [p_2200, c_0300] [] =
      (Inr [[p_2200], [c_0300]], [build_prompt [p_2200] c_0300])
   \<and> chunk_by_llm iso_seconds ascii (says ''Yes.'') [p_0900, c_1400] [] =
      (Inr [[p_0900], [c_1400]], [])"
proof -
  have a: "chunk_by_llm iso_seconds ascii (says ''Yes.'') [p_1345, c_1400] [] =
      (Inr [[p_1345, c_1400]], [build_prompt [p_1345] c_1400])"
    using gap_boundaries [OF parse_1345 parse_1400 gap_900,
        where ops = ascii and post = "says ''Yes.''" and calls = "[]"]
    by (simp add: verdict_says_yes)
  have b: "chunk_by_llm iso_seconds ascii unreachable [p_1344, c_1400] [] =
      (Inr [[p_1344], [c_1400]], [build_prompt [p_1344] c_1400])"
    using gap_boundaries [OF parse_1344 parse_1400 gap_901,
        where ops = ascii and post = unreachable and calls = "[]"]
    by (simp add: verdict_unreachable hour_stamp)
  have c: "chunk_by_llm iso_seconds ascii unreachable [p_2200, c_0300] [] =
      (Inr [[p_2200], [c_0300]], [build_prompt [p_2200] c_0300])"
    using gap_boundaries [OF parse_2200 parse_0300 gap_night,
        where ops = ascii and post = unreachable and calls = "[]"]
    by (simp add: verdict_unreachable hour_stamp)
  have d: "chunk_by_llm iso_seconds ascii (says ''Yes.'') [p_0900, c_1400] [] =
      (Inr [[p_0900], [c_1400]], [])"
    using gap_boundaries [OF parse_0900 parse_1400 gap_day,
        where ops = ascii and post = "says ''Yes.''" and calls = "[]"]
    by (simp add: hour_stamp)
  from a b c d show ?thesis by blast
qed

text \<open>
  The claim as written fails: at a gap of exactly 15 minutes a request is made, and
  when it raises the two messages are split.
\<close>

theorem gap_exactly_15_counterexample:
  "chunk_by_llm iso_seconds ascii unreachable [p_1345, c_1400] [] =
     (Inr [[p_1345], [c_1400]], [build_prompt [p_1345] c_1400])"
  by (simp add: two_messages [OF parse_1345 parse_1400 gap_900] total_seconds_def
        verdict_unreachable)

subsection \<open>The continuation oracle\<close>

lemma str_in_sublist: "str_in needle hay \<longleftrightarrow> sublist needle hay"
  by (induction hay) (simp_all add: sublist_Cons_right)

lemma ask_False_cases:
  "post (length calls) (build_prompt conv new) = Raised
   \<or> (\<exists>status body. post (length calls) (build_prompt conv new) = Response status body \<and> status \<noteq> 200)
   \<or> post (length calls) (build_prompt conv new) = Response 200 None
   \<or> (\<exists>result. post (length calls) (build_prompt conv new) = Response 200 (Some result)
         \<and> answer_of ops result = None)
   \<Longrightarrow> ask_llm_about_continuation ops post conv new calls =
        (False, if conv = [] then calls else calls @ [build_prompt conv new])"
  by (auto simp: ask_llm_about_continuation_def verdict_def Let_def)

lemma verdict_answer:
  "map_of kvs ''message'' = Some (JObj kvs') \<Longrightarrow> map_of kvs' ''content'' = Some (JStr s)
   \<Longrightarrow> verdict ops (Response 200 (Some (JObj kvs))) = sublist ''YES'' (upper ops (strip ops s))"
  by (simp add: verdict_def answer_of_def str_in_sublist)

lemma verdict_missing:
  "upper ops (strip ops []) = [] \<Longrightarrow>
   map_of kvs ''message'' = None
   \<or> (\<exists>kvs'. map_of kvs ''message'' = Some (JObj kvs') \<and>
         (map_of kvs' ''content'' = None \<or> map_of kvs' ''content'' = Some (JStr [])))
   \<Longrightarrow> verdict ops (Response 200 (Some (JObj kvs))) = False"
  by (auto simp: verdict_def answer_of_def)

lemma verdict_failure:
  "r = Raised \<or> (\<exists>status body. r = Response status body \<and> status \<noteq> 200)
   \<Longrightarrow> verdict ops r = False"
  by (auto simp: verdict_def)

text \<open>
  Claim C4. \<^verbatim>\<open>ask_llm_about_continuation\<close> always returns a truth value. It returns
  \<open>False\<close> when the request raises, when the status is not 200, and when reading the
  answer raises (the body is not JSON, or a value on the way is not a dict or not a
  text). On a 200 response whose body holds a text under \<^verbatim>\<open>message.content\<close> it
  returns whether \<^verbatim>\<open>YES\<close> is a substring of the stripped, upper-cased text, whatever
  \<^verbatim>\<open>str.strip\<close> and \<^verbatim>\<open>str.upper\<close> compute; a missing \<^verbatim>\<open>message\<close>, a missing
  \<^verbatim>\<open>content\<close> and an empty text give \<open>False\<close>, as stripping and upper-casing the
  empty text gives the empty text. A failed consultation forces a split: when the
  gap between consecutive messages \<open>p\<close> and \<open>c\<close> makes the engine consult the oracle
  and the request raises or its status is not 200, the result up to \<open>c\<close> is the
  result up to \<open>p\<close> followed by a new chunk holding \<open>c\<close>, with the one prompt logged.
  Whether \<^verbatim>\<open>chunk_by_llm\<close> returns does not depend on the network: it returns exactly
  on the inputs shorter than two messages and on the well-stamped ones.
\<close>

theorem oracle_failure_policy:
  "(post (length calls) (build_prompt conv new) = Raised
      \<or> (\<exists>status body. post (length calls) (build_prompt conv new) = Response status body
            \<and> status \<noteq> 200)
      \<or> post (length calls) (build_prompt conv new) = Response 200 None
      \<or> (\<exists>result. post (length calls) (build_prompt conv new) = Response 200 (Some result)
            \<and> answer_of ops result = None)
      \<longrightarrow> fst (ask_llm_about_continuation ops post conv new calls) = False)
   \<and> (\<forall>kvs kvs' s. conv \<noteq> []
         \<and> post (length calls) (build_prompt conv new) = Response 200 (Some (JObj kvs))
         \<and> map_of kvs ''message'' = Some (JObj kvs') \<and> map_of kvs' ''content'' = Some (JStr s)
      \<longrightarrow> fst (ask_llm_about_continuation ops post conv new calls) = sublist ''YES'' (upper ops (strip ops s)))
   \<and> (\<forall>kvs. upper ops (strip ops []) = []
         \<and> post (length calls) (build_prompt conv new) = Response 200 (Some (JObj kvs))
         \<and> (map_of kvs ''message'' = None
            \<or> (\<exists>kvs'. map_of kvs ''message'' = Some (JObj kvs') \<and>
                  (map_of kvs' ''content'' = None \<or> map_of kvs' ''content'' = Some (JStr []))))
      \<longrightarrow> fst (ask_llm_about_continuation ops post conv new calls) = False)
   \<and> (\<forall>chunks calls1 tp tc d.
         chunk_by_llm f ops post (pre @ [p]) calls0 = (Inr chunks, calls1)
         \<and> f (timestamp p) = Some tp \<and> f (timestamp c) = Some tc \<and> dt_sub tc tp = Some d
         \<and> 15 \<le> total_seconds d / 60
         \<and> (total_seconds d / 60 \<le> 240 \<or> (0 \<le> hour tc \<and> hour tc < 10))
         \<and> (post (length calls1) (build_prompt (last chunks) c) = Raised
            \<or> (\<exists>status body. post (length calls1) (build_prompt (last chunks) c)
                    = Response status body \<and> status \<noteq> 200))
      \<longrightarrow> chunk_by_llm f ops post (pre @ [p, c]) calls0 =
            (Inr (chunks @ [[c]]), calls1 @ [build_prompt (last chunks) c]))
   \<and> ((\<exists>chunks calls'. chunk_by_llm f ops post ms calls = (Inr chunks, calls'))
        \<longleftrightarrow> length ms < 2 \<or> stamps_ok f ms)"
proof -
  have fails: "post (length calls) (build_prompt conv new) = Raised
      \<or> (\<exists>status body. post (length calls) (build_prompt conv new) = Response status body
            \<and> status \<noteq> 200)
      \<or> post (length calls) (build_prompt conv new) = Response 200 None
      \<or> (\<exists>result. post (length calls) (build_prompt conv new) = Response 200 (Some result)
            \<and> answer_of ops result = None)
      \<longrightarrow> fst (ask_llm_about_continuation ops post conv new calls) = False"
    using ask_False_cases [of post calls conv new ops] by auto
  have answer: "\<forall>kvs kvs' s. conv \<noteq> []
         \<and> post (length calls) (build_prompt conv new) = Response 200 (Some (JObj kvs))
         \<and> map_of kvs ''message'' = Some (JObj kvs') \<and> map_of kvs' ''content'' = Some (JStr s)
      \<longrightarrow> fst (ask_llm_about_continuation ops post conv new calls) = sublist ''YES'' (upper ops (strip ops s))"
    by (auto simp: ask_nonempty verdict_answer)
  have missing: "\<forall>kvs. upper ops (strip ops []) = []
         \<and> post (length calls) (build_prompt conv new) = Response 200 (Some (JObj kvs))
         \<and> (map_of kvs ''message'' = None
            \<or> (\<exists>kvs'. map_of kvs ''message'' = Some (JObj kvs') \<and>
                  (map_of kvs' ''content'' = None \<or> map_of kvs' ''content'' = Some (JStr []))))
      \<longrightarrow> fst (ask_llm_about_continuation ops post conv new calls) = False"
  proof (intro allI impI)
    fix kvs
    assume h: "upper ops (strip ops []) = []
         \<and> post (length calls) (build_prompt conv new) = Response 200 (Some (JObj kvs))
         \<and> (map_of kvs ''message'' = None
            \<or> (\<exists>kvs'. map_of kvs ''message'' = Some (JObj kvs') \<and>
                  (map_of kvs' ''content'' = None \<or> map_of kvs' ''content'' = Some (JStr []))))"
    then have "verdict ops (Response 200 (Some (JObj kvs))) = False"
      using verdict_missing [of ops kvs] by blast
    with h show "fst (ask_llm_about_continuation ops post conv new calls) = False"
      by (cases "conv = []") (simp_all add: ask_empty ask_nonempty)
  qed
  have split: "\<forall>chunks calls1 tp tc d.
         chunk_by_llm f ops post (pre @ [p]) calls0 = (Inr chunks, calls1)
         \<and> f (timestamp p) = Some tp \<and> f (timestamp c) = Some tc \<and> dt_sub tc tp = Some d
         \<and> 15 \<le> total_seconds d / 60
         \<and> (total_seconds d / 60 \<le> 240 \<or> (0 \<le> hour tc \<and> hour tc < 10))
         \<and> (post (length calls1) (build_prompt (last chunks) c) = Raised
            \<or> (\<exists>status body. post (length calls1) (build_prompt (last chunks) c)
                    = Response status body \<and> status \<noteq> 200))
      \<longrightarrow> chunk_by_llm f ops post (pre @ [p, c]) calls0 =
            (Inr (chunks @ [[c]]), calls1 @ [build_prompt (last chunks) c])"
  proof (intro allI impI, elim conjE)
    fix chunks calls1 tp tc d
    assume run: "chunk_by_llm f ops post (pre @ [p]) calls0 = (Inr chunks, calls1)"
      and tp: "f (timestamp p) = Some tp" and tc: "f (timestamp c) = Some tc"
      and d: "dt_sub tc tp = Some d"
      and lo: "15 \<le> total_seconds d / 60"
      and band: "total_seconds d / 60 \<le> 240 \<or> (0 \<le> hour tc \<and> hour tc < 10)"
      and failed: "post (length calls1) (build_prompt (last chunks) c) = Raised
            \<or> (\<exists>status body. post (length calls1) (build_prompt (last chunks) c)
                    = Response status body \<and> status \<noteq> 200)"
    note snoc = chunk_by_llm_snoc [OF run, of c]
    then have cur: "last chunks \<noteq> []" by simp
    from failed have no: "verdict ops (post (length calls1) (build_prompt (last chunks) c)) = False"
      by (rule verdict_failure)
    from lo band have "should_continue f ops post (last chunks) p c calls1 =
        (Inr False, calls1 @ [build_prompt (last chunks) c])"
      by (auto simp: should_continue_parsed [OF tp tc d] ask_nonempty [OF cur] no)
    with snoc show "chunk_by_llm f ops post (pre @ [p, c]) calls0 =
            (Inr (chunks @ [[c]]), calls1 @ [build_prompt (last chunks) c])"
      by simp
  qed
  from fails answer missing split chunk_by_llm_returns_iff [of f ops post ms calls]
  show ?thesis by blast
qed

lemma hourly_ok: "stamps_ok iso_seconds hourly"
  by code_simp

lemma ascii_empty: "upper ascii (strip ascii []) = []"
  by code_simp

lemma hourly_parts: "[hourly ! 0] @ [hourly ! 1, hourly ! 2] = hourly"
  by (simp add: hourly_def)

lemma hourly_start:
  "chunk_by_llm iso_seconds ascii unreachable ([hourly ! 0] @ [hourly ! 1]) [] =
     (Inr [[hourly ! 0], [hourly ! 1]], [build_prompt [hourly ! 0] (hourly ! 1)])"
  by code_simp

lemma parse_hourly:
  "iso_seconds (timestamp (hourly ! 1)) = Some (stamp 2024 3 1 12 0 0)"
  "iso_seconds (timestamp (hourly ! 2)) = Some (stamp 2024 3 1 13 0 0)"
  "dt_sub (stamp 2024 3 1 13 0 0) (stamp 2024 3 1 12 0 0) = Some 3600000000"
  by code_simp+

theorem oracle_failure_policy_witness:
  "fst (ask_llm_about_continuation ascii unreachable [p_1300] c_1400 []) = False
   \<and> fst (ask_llm_about_continuation ascii (refuses 503) [p_1300] c_1400 []) = False
   \<and> fst (ask_llm_about_continuation ascii (says '' yes, same topic '') [p_1300] c_1400 []) = True
   \<and> fst (ask_llm_about_continuation ascii (reply (JObj [(''done'', JBool True)])) [p_1300] c_1400 []) = False
   \<and> chunk_by_llm iso_seconds ascii unreachable hourly [] =
       (Inr [[hourly ! 0], [hourly ! 1], [hourly ! 2]],
        [build_prompt [hourly ! 0] (hourly ! 1), build_prompt [hourly ! 1] (hourly ! 2)])
   \<and> (\<exists>chunks calls'. chunk_by_llm iso_seconds ascii (refuses 503) hourly [] = (Inr chunks, calls'))"
proof -
  note inst = oracle_failure_policy
    [where ops = ascii and calls = "[]" and conv = "[p_1300]" and new = c_1400
       and f = iso_seconds and pre = "[hourly ! 0]" and p = "hourly ! 1" and c = "hourly ! 2"
       and ?calls0.0 = "[]" and ms = hourly]
  have a: "fst (ask_llm_about_continuation ascii unreachable [p_1300] c_1400 []) = False"
    using inst [where post = unreachable, THEN conjunct1]
    by (simp add: unreachable_def)
  have b: "fst (ask_llm_about_continuation ascii (refuses 503) [p_1300] c_1400 []) = False"
    using inst [where post = "refuses 503", THEN conjunct1]
    by (simp add: refuses_def)
  have up: "sublist ''YES'' (upper ascii (strip ascii '' yes, same topic ''))"
    unfolding str_in_sublist [symmetric] by code_simp
  have c: "fst (ask_llm_about_continuation ascii (says '' yes, same topic '') [p_1300] c_1400 []) = True"
    using inst [where post = "says '' yes, same topic ''", THEN conjunct2, THEN conjunct1] up
    by (simp add: says_def)
  have d: "fst (ask_llm_about_continuation ascii (reply (JObj [(''done'', JBool True)])) [p_1300] c_1400 []) = False"
    using inst [where post = "reply (JObj [(''done'', JBool True)])",
                THEN conjunct2, THEN conjunct2, THEN conjunct1] ascii_empty
    by (simp add: reply_def)
  have "chunk_by_llm iso_seconds ascii unreachable ([hourly ! 0] @ [hourly ! 1, hourly ! 2]) [] =
       (Inr [[hourly ! 0], [hourly ! 1], [hourly ! 2]],
        [build_prompt [hourly ! 0] (hourly ! 1), build_prompt [hourly ! 1] (hourly ! 2)])"
    using inst [where post = unreachable, THEN conjunct2, THEN conjunct2, THEN conjunct2,
                THEN conjunct1, rule_format,
                of "[[hourly ! 0], [hourly ! 1]]" "[build_prompt [hourly ! 0] (hourly ! 1)]"
                   "stamp 2024 3 1 12 0 0" "stamp 2024 3 1 13 0 0" 3600000000]
      hourly_start parse_hourly
    by (simp add: total_seconds_def unreachable_def)
  then have e: "chunk_by_llm iso_seconds ascii unreachable hourly [] =
       (Inr [[hourly ! 0], [hourly ! 1], [hourly ! 2]],
        [build_prompt [hourly ! 0] (hourly ! 1), build_prompt [hourly ! 1] (hourly ! 2)])"
    by (simp only: hourly_parts)
  have g: "\<exists>chunks calls'. chunk_by_llm iso_seconds ascii (refuses 503) hourly [] = (Inr chunks, calls')"
    using inst [where post = "refuses 503", THEN conjunct2, THEN conjunct2, THEN conjunct2,
                THEN conjunct2] hourly_ok
    by blast
  from a b c d e g show ?thesis by blast
qed

text \<open>
  Claim C5, as amended. In the prompt a message is labelled \<^verbatim>\<open>Assistant\<close> exactly when
  its sender differs from the sender of the first message of the current chunk, and
  \<^verbatim>\<open>User\<close> otherwise, so the first message of the chunk is always a \<^verbatim>\<open>User\<close> line;
  the converter gives the role \<^verbatim>\<open>assistant\<close> exactly to the messages sent by
  \<^verbatim>\<open>YOUR_NAME\<close>. The two agree on a message of either party when the chunk was opened
  by somebody other than \<^verbatim>\<open>YOUR_NAME\<close>, and they are opposite on every such message
  when \<^verbatim>\<open>YOUR_NAME\<close> opened it.
\<close>

theorem prompt_roles:
  "(sender_label (first # rest) m = ''Assistant'' \<longleftrightarrow> sender m \<noteq> sender first)
   \<and> (sender_label (first # rest) m = ''User'' \<longleftrightarrow> sender m = sender first)
   \<and> (role_of m = ''assistant'' \<longleftrightarrow> sender m = YOUR_NAME)
   \<and> (role_of m = ''user'' \<longleftrightarrow> sender m \<noteq> YOUR_NAME)
   \<and> (sender first \<noteq> YOUR_NAME \<and> (sender m = YOUR_NAME \<or> sender m = sender first) \<longrightarrow>
        (sender_label (first # rest) m = ''Assistant'' \<longleftrightarrow> role_of m = ''assistant''))
   \<and> (sender first = YOUR_NAME \<longrightarrow>
        (sender_label (first # rest) m = ''Assistant'' \<longleftrightarrow> role_of m = ''user''))
   \<and> build_prompt [first] m =
        ''Previous conversation:'' @ nl
        @ ''['' @ timestamp first @ ''] User: '' @ message first @ nl
        @ nl @ ''New message at ['' @ timestamp m @ '']:'' @ nl
        @ (if sender m = sender first then ''User'' else ''Assistant'') @ '': '' @ message m @ nl
        @ nl @ ''Does this new message continue the same conversation, or does it start a new topic/conversation?''
        @ nl @ ''Answer with only '' @ [CHR 0x22] @ ''YES'' @ [CHR 0x22] @ '' or ''
        @ [CHR 0x22] @ ''NO'' @ [CHR 0x22] @ ''.''"
  by (auto simp: sender_label_def role_of_def build_prompt_def last10_def Let_def)

theorem prompt_roles_witness:
  "sender_label [p_1345, c_1400] c_1400 = ''Assistant'' \<and> role_of c_1400 = ''assistant''
   \<and> sender_label [p_1345, c_1400] p_1345 = ''User'' \<and> role_of p_1345 = ''user''
   \<and> sender_label [own_opening, p_1345] p_1345 = ''Assistant''"
proof -
  have s1: "sender p_1345 = ''Ada''" and s2: "sender c_1400 = ''Festus''"
    and s3: "sender own_opening = ''Festus''"
    by (simp_all add: p_1345_def c_1400_def own_opening_def mk_msg_def)
  show ?thesis
    using prompt_roles [of p_1345 "[c_1400]" c_1400] prompt_roles [of p_1345 "[c_1400]" p_1345]
      prompt_roles [of own_opening "[p_1345]" p_1345]
    by (simp add: s1 s2 s3 YOUR_NAME_def)
qed

text \<open>
  The claim as written fails on a chunk opened by \<^verbatim>\<open>YOUR_NAME\<close>: the prompt calls that
  message a \<^verbatim>\<open>User\<close> line, the converter gives it the role \<^verbatim>\<open>assistant\<close>.
\<close>

theorem prompt_roles_counterexample:
  "sender own_opening = YOUR_NAME
   \<and> sender_label [own_opening] own_opening = ''User''
   \<and> role_of own_opening = ''assistant''"
  by (simp add: own_opening_def mk_msg_def YOUR_NAME_def sender_label_def role_of_def)

section \<open>Properties of the chunk-to-record converter\<close>

lemma find_start_None: "find_start chunk i = None \<longleftrightarrow> (\<forall>m\<in>set chunk. sender m = YOUR_NAME)"
  by (induction chunk arbitrary: i) auto

lemma find_start_Some:
  "find_start chunk i = Some k \<Longrightarrow> i \<le> k \<and> drop (k - i) chunk = trim chunk"
proof (induction chunk arbitrary: i)
  case Nil
  then show ?case by simp
next
  case (Cons m ms)
  show ?case
  proof (cases "sender m = YOUR_NAME")
    case True
    with Cons.prems have "find_start ms (Suc i) = Some k" by simp
    from Cons.IH [OF this] have "Suc i \<le> k" and "drop (k - Suc i) ms = trim ms" by simp_all
    then show ?thesis using True by (simp add: trim_def Suc_diff_le drop_Cons')
  next
    case False
    with Cons.prems show ?thesis by (simp add: trim_def)
  qed
qed

lemma merge_loop_runs:
  "(case merge_loop ms merged (Some r) cc of (a, b, c) \<Rightarrow> flush a b c) =
     merged @ \<lparr>role = r, content = join nl (cc @ map message (takeWhile (\<lambda>x. role_of x = r) ms))\<rparr>
       # merge_runs (dropWhile (\<lambda>x. role_of x = r) ms)"
proof (induction ms arbitrary: merged r cc)
  case Nil
  then show ?case by (simp add: flush_def)
next
  case (Cons m ms)
  show ?case
  proof (cases "role_of m = r")
    case True
    then show ?thesis using Cons.IH [of merged r "cc @ [message m]"] by simp
  next
    case False
    then show ?thesis
      using Cons.IH [of "flush merged (Some r) cc" "role_of m" "[message m]"]
      by (simp add: flush_def)
  qed
qed

lemma merge_messages_runs: "merge_messages chunk = merge_runs chunk"
proof (cases chunk)
  case Nil
  then show ?thesis by (simp add: merge_messages_def flush_def)
next
  case (Cons m ms)
  then show ?thesis
    using merge_loop_runs [of ms "[]" "role_of m" "[message m]"]
    by (simp add: merge_messages_def flush_def)
qed

lemma roles_merge_runs: "role ` set (merge_runs xs) = role_of ` set xs"
proof (induction xs rule: merge_runs.induct)
  case 1
  then show ?case by simp
next
  case (2 m ms)
  have "set ms = set (takeWhile (\<lambda>x. role_of x = role_of m) ms)
                  \<union> set (dropWhile (\<lambda>x. role_of x = role_of m) ms)"
    by (metis set_append takeWhile_dropWhile_id)
  moreover have "role_of ` set (takeWhile (\<lambda>x. role_of x = role_of m) ms) \<subseteq> {role_of m}"
    by (auto dest: set_takeWhileD)
  ultimately show ?case using 2 by auto
qed

lemma hd_merge_runs: "xs \<noteq> [] \<Longrightarrow> role (hd (merge_runs xs)) = role_of (hd xs)"
  by (cases xs) simp_all

lemma merge_runs_Nil: "merge_runs xs = [] \<longleftrightarrow> xs = []"
  by (cases xs) simp_all

lemma alternating_merge_runs: "distinct_adj (map role (merge_runs xs))"
proof (induction xs rule: merge_runs.induct)
  case 1
  then show ?case by simp
next
  case (2 m ms)
  let ?rest = "dropWhile (\<lambda>x. role_of x = role_of m) ms"
  show ?case
  proof (cases "?rest = []")
    case True
    then show ?thesis by (simp del: dropWhile_eq_Nil_conv)
  next
    case False
    then have "role_of (hd ?rest) \<noteq> role_of m" using hd_dropWhile by blast
    moreover have "merge_runs ?rest \<noteq> []" using False by (simp add: merge_runs_Nil)
    ultimately show ?thesis
      using 2 False hd_merge_runs [of ?rest]
      by (cases "merge_runs ?rest") (auto simp: distinct_adj_Cons)
  qed
qed

lemma role_of_values: "role_of m = ''assistant'' \<longleftrightarrow> sender m = YOUR_NAME"
  by (simp add: role_of_def)

lemma mem_image_eq: "a \<in> f ` A \<longleftrightarrow> (\<exists>x\<in>A. f x = a)"
  by auto

lemma has_assistant_runs:
  "list_ex (\<lambda>t. role t = ''assistant'') (merge_runs xs) \<longleftrightarrow> (\<exists>m\<in>set xs. sender m = YOUR_NAME)"
proof -
  have "list_ex (\<lambda>t. role t = ''assistant'') (merge_runs xs) \<longleftrightarrow> ''assistant'' \<in> role ` set (merge_runs xs)"
    by (simp only: list_ex_iff mem_image_eq)
  also have "\<dots> \<longleftrightarrow> ''assistant'' \<in> role_of ` set xs" by (simp add: roles_merge_runs)
  also have "\<dots> \<longleftrightarrow> (\<exists>m\<in>set xs. sender m = YOUR_NAME)"
    by (simp only: mem_image_eq role_of_values)
  finally show ?thesis .
qed

lemma chunk_to_chatml_eq:
  "chunk_to_chatml chunk p =
     (if length chunk < 2 \<or> (\<forall>m\<in>set chunk. sender m = YOUR_NAME)
         \<or> \<not> (\<exists>t\<in>set (merge_runs (trim chunk)). role t = ''assistant'')
      then None
      else Some \<lparr>messages = merge_runs (trim chunk), persona = p,
                  timestamp_start = timestamp (hd (trim chunk)),
                  timestamp_end = timestamp (last (trim chunk))\<rparr>)"
proof (cases "find_start chunk 0")
  case None
  then show ?thesis
    using find_start_None [of chunk 0] by (simp add: chunk_to_chatml_def)
next
  case (Some k)
  then have "\<not> (\<forall>m\<in>set chunk. sender m = YOUR_NAME)"
    using find_start_None [of chunk 0] by simp
  moreover from find_start_Some [OF Some] have "drop k chunk = trim chunk" by simp
  ultimately show ?thesis
    using Some by (simp add: chunk_to_chatml_def merge_messages_runs Let_def list_ex_iff)
qed


text \<open>
  Claim C6. \<^verbatim>\<open>chunk_to_chatml\<close> rejects a chunk exactly when it has fewer than two
  messages, or every message was sent by \<^verbatim>\<open>YOUR_NAME\<close>, or the merged turns of the
  trimmed chunk hold no assistant turn. Otherwise the record holds the turns of the
  maximal same-role runs of the trimmed chunk (which the merging loop computes), each
  with the texts of its run joined by a newline, the persona, and the timestamps of the
  first and the last message of the trimmed chunk; its first turn is a user turn, it
  has an assistant turn, and neighbouring turns differ in role.
\<close>

theorem chunk_to_chatml_spec:
  "(chunk_to_chatml chunk p = None \<longleftrightarrow>
      length chunk < 2 \<or> (\<forall>m\<in>set chunk. sender m = YOUR_NAME)
      \<or> \<not> (\<exists>t\<in>set (merge_runs (trim chunk)). role t = ''assistant''))
   \<and> merge_messages (trim chunk) = merge_runs (trim chunk)
   \<and> (\<forall>r. chunk_to_chatml chunk p = Some r \<longrightarrow>
        r = \<lparr>messages = merge_runs (trim chunk), persona = p,
              timestamp_start = timestamp (hd (trim chunk)),
              timestamp_end = timestamp (last (trim chunk))\<rparr>
        \<and> trim chunk \<noteq> []
        \<and> role (hd (messages r)) = ''user''
        \<and> (\<exists>t\<in>set (messages r). role t = ''assistant'')
        \<and> distinct_adj (map role (messages r)))"
proof -
  note eq = chunk_to_chatml_eq [of chunk p]
  have rejected: "chunk_to_chatml chunk p = None \<longleftrightarrow>
      length chunk < 2 \<or> (\<forall>m\<in>set chunk. sender m = YOUR_NAME)
      \<or> \<not> (\<exists>t\<in>set (merge_runs (trim chunk)). role t = ''assistant'')"
    by (simp add: eq)
  have emitted: "\<forall>r. chunk_to_chatml chunk p = Some r \<longrightarrow>
        r = \<lparr>messages = merge_runs (trim chunk), persona = p,
              timestamp_start = timestamp (hd (trim chunk)),
              timestamp_end = timestamp (last (trim chunk))\<rparr>
        \<and> trim chunk \<noteq> []
        \<and> role (hd (messages r)) = ''user''
        \<and> (\<exists>t\<in>set (messages r). role t = ''assistant'')
        \<and> distinct_adj (map role (messages r))"
  proof (intro allI impI)
    fix r
    assume some: "chunk_to_chatml chunk p = Some r"
    then have keep: "\<not> (\<forall>m\<in>set chunk. sender m = YOUR_NAME)"
      and asst: "\<exists>t\<in>set (merge_runs (trim chunk)). role t = ''assistant''"
      and r: "r = \<lparr>messages = merge_runs (trim chunk), persona = p,
              timestamp_start = timestamp (hd (trim chunk)),
              timestamp_end = timestamp (last (trim chunk))\<rparr>"
      by (auto simp: eq split: if_splits)
    from keep have ne: "trim chunk \<noteq> []" by (auto simp: trim_def)
    then have "sender (hd (trim chunk)) \<noteq> YOUR_NAME"
      unfolding trim_def using hd_dropWhile by blast
    then have "role (hd (merge_runs (trim chunk))) = ''user''"
      using hd_merge_runs [OF ne] by (simp add: role_of_def)
    with r ne asst alternating_merge_runs [of "trim chunk"]
    show "r = \<lparr>messages = merge_runs (trim chunk), persona = p,
              timestamp_start = timestamp (hd (trim chunk)),
              timestamp_end = timestamp (last (trim chunk))\<rparr>
        \<and> trim chunk \<noteq> []
        \<and> role (hd (messages r)) = ''user''
        \<and> (\<exists>t\<in>set (messages r). role t = ''assistant'')
        \<and> distinct_adj (map role (messages r))"
      by simp
  qed
  from rejected emitted merge_messages_runs [of "trim chunk"] show ?thesis by blast
qed

lemma late_reply_run:
  "chunk_to_chatml late_reply ''sister'' =
     Some \<lparr>messages = [\<lparr>role = ''user'', content = ''hi'' @ nl @ ''there you are''\<rparr>,
                        \<lparr>role = ''assistant'', content = ''hello''\<rparr>],
           persona = ''sister'',
           timestamp_start = ''2024-03-01T18:02:00'',
           timestamp_end = ''2024-03-01T18:04:00''\<rparr>"
  by code_simp

lemma late_reply_trim: "trim late_reply = drop 2 late_reply"
  by code_simp

theorem chunk_to_chatml_spec_witness:
  "chunk_to_chatml late_reply ''sister'' =
     Some \<lparr>messages = [\<lparr>role = ''user'', content = ''hi'' @ nl @ ''there you are''\<rparr>,
                        \<lparr>role = ''assistant'', content = ''hello''\<rparr>],
           persona = ''sister'',
           timestamp_start = ''2024-03-01T18:02:00'',
           timestamp_end = ''2024-03-01T18:04:00''\<rparr>
   \<and> merge_runs (drop 2 late_reply) =
       [\<lparr>role = ''user'', content = ''hi'' @ nl @ ''there you are''\<rparr>,
        \<lparr>role = ''assistant'', content = ''hello''\<rparr>]
   \<and> chunk_to_chatml (take 2 late_reply) ''sister'' = None
   \<and> chunk_to_chatml (take 1 (drop 2 late_reply)) ''sister'' = None
   \<and> chunk_to_chatml (take 2 (drop 2 late_reply)) ''sister'' = None"
proof -
  have own: "\<forall>m\<in>set (take 2 late_reply). sender m = YOUR_NAME" by code_simp
  have short: "length (take 1 (drop 2 late_reply)) < 2" by simp
  have silent: "\<not> (\<exists>t\<in>set (merge_runs (trim (take 2 (drop 2 late_reply)))). role t = ''assistant'')"
    by code_simp
  from chunk_to_chatml_spec [of late_reply "''sister''"] late_reply_run
  have "merge_runs (drop 2 late_reply) =
       [\<lparr>role = ''user'', content = ''hi'' @ nl @ ''there you are''\<rparr>,
        \<lparr>role = ''assistant'', content = ''hello''\<rparr>]"
    by (simp add: late_reply_trim)
  moreover from chunk_to_chatml_spec [of "take 2 late_reply" "''sister''"] own
  have "chunk_to_chatml (take 2 late_reply) ''sister'' = None" by blast
  moreover from chunk_to_chatml_spec [of "take 1 (drop 2 late_reply)" "''sister''"] short
  have "chunk_to_chatml (take 1 (drop 2 late_reply)) ''sister'' = None" by blast
  moreover from chunk_to_chatml_spec [of "take 2 (drop 2 late_reply)" "''sister''"] silent
  have "chunk_to_chatml (take 2 (drop 2 late_reply)) ''sister'' = None" by blast
  ultimately show ?thesis using late_reply_run by blast
qed

section \<open>Properties of the dataset splitter\<close>

subsection \<open>One persona\<close>

lemma sound_perm:
  assumes "sound perm"
  shows "set (fst (perm g n)) = {0..<n}" and "distinct (fst (perm g n))"
    and "length (fst (perm g n)) = n"
proof -
  from assms have m: "mset (fst (perm g n)) = mset [0..<n]" by (simp add: sound_def)
  from mset_eq_setD [OF m] show "set (fst (perm g n)) = {0..<n}" by simp
  from mset_eq_imp_distinct_iff [OF m] show "distinct (fst (perm g n))" by simp
  from mset_eq_length [OF m] show "length (fst (perm g n)) = n" by simp
qed

lemma shuffle_indices:
  assumes "sound perm"
  shows "py_shuffle perm g [0..<n] = perm g n"
proof -
  have "map (\<lambda>i. [0..<n] ! i) (fst (perm g n)) = map (\<lambda>i. i) (fst (perm g n))"
    by (rule map_cong) (use sound_perm(1) [OF assms, of g n] in auto)
  then show ?thesis by (cases "perm g n") (simp add: py_shuffle_def)
qed

lemma sound_reversal: "sound reversal"
  by (simp add: sound_def reversal_def)

lemma map_filter_nths:
  "map (\<lambda>i. xs ! i) (filter P [0..<length xs]) = nths xs {i. P i}"
proof (induction xs rule: rev_induct)
  case Nil
  then show ?case by simp
next
  case (snoc x xs)
  have "map (\<lambda>i. (xs @ [x]) ! i) (filter P [0..<length xs])
          = map (\<lambda>i. xs ! i) (filter P [0..<length xs])"
    by (rule map_cong) (auto simp: nth_append)
  then show ?case using snoc by (simp add: nths_append)
qed

text \<open>
  The three clamps of the source are the clamp of the specification, and the two
  comprehensions select by position.
\<close>

lemma split_eval_raises:
  assumes "rows \<noteq> []" and "rounded (length rows) (eval_ratio cfg) = Inl e"
  shows "split_eval perm rows rng cfg = Inl e"
  using assms by (simp add: split_eval_def split: prod.splits)

lemma split_eval_returns:
  assumes "rows \<noteq> []" and "sound perm" and "rounded (length rows) (eval_ratio cfg) = Inr r"
  shows "split_eval perm rows rng cfg =
     Inr ((nths rows (set (slice_to (fst (perm rng (length rows))) (clamped r (length rows) cfg))),
           nths rows (- set (slice_to (fst (perm rng (length rows))) (clamped r (length rows) cfg)))),
          snd (perm rng (length rows)))"
proof -
  have "{i. i \<notin> A} = - A" for A :: "nat set" by auto
  then show ?thesis
    using assms
    by (simp add: split_eval_def shuffle_indices Let_def map_filter_nths clamped_def
             split: prod.splits option.splits)
qed

lemma slice_to_props:
  "set (slice_to xs k) \<subseteq> set xs"
  "distinct xs \<Longrightarrow> distinct (slice_to xs k)"
  "length (slice_to xs k) = (if 0 \<le> k then min (nat k) (length xs) else length xs - nat (- k))"
  by (auto simp: slice_to_def dest: in_set_takeD)

lemma length_nths_distinct:
  assumes "distinct is" and "set is \<subseteq> {0..<length xs}"
  shows "length (nths xs (set is)) = length is"
proof -
  have "{i. i < length xs \<and> i \<in> set is} = set is" using assms(2) by auto
  then show ?thesis using assms(1) by (simp add: length_nths distinct_card)
qed

lemma clamped_le: "clamped r n cfg \<le> int n"
  by (auto simp: clamped_def min_le_iff_disj split: option.splits)

lemma clamped_nonneg:
  "0 \<le> min_eval_per_persona cfg \<Longrightarrow> (\<forall>m. max_eval_per_persona cfg = Some m \<longrightarrow> 0 \<le> m)
   \<Longrightarrow> 0 \<le> clamped r n cfg"
  by (auto simp: clamped_def split: option.splits)

lemma clamped_cap:
  "max_eval_per_persona cfg = Some m \<Longrightarrow> m \<le> min_eval_per_persona cfg \<Longrightarrow> m \<le> int n
   \<Longrightarrow> clamped r n cfg = m"
  by (auto simp: clamped_def)

lemma eval_size_returns:
  assumes "rows \<noteq> []" and "sound perm" and "rounded (length rows) (eval_ratio cfg) = Inr r"
    and "0 \<le> clamped r (length rows) cfg"
  shows "eval_size perm rows rng cfg = Inr (clamped r (length rows) cfg)"
proof -
  let ?n = "length rows"
  let ?p = "fst (perm rng ?n)"
  let ?d = "clamped r ?n cfg"
  have d: "distinct (slice_to ?p ?d)"
    using sound_perm(2) [OF assms(2)] by (rule slice_to_props(2))
  have s: "set (slice_to ?p ?d) \<subseteq> {0..<?n}"
    using slice_to_props(1) [of ?p ?d] sound_perm(1) [OF assms(2), of rng ?n] by simp
  have "length (nths rows (set (slice_to ?p ?d))) = length (slice_to ?p ?d)"
    by (rule length_nths_distinct [OF d s])
  also have "\<dots> = nat ?d"
    using assms(4) clamped_le [of r ?n cfg]
    by (simp add: slice_to_props(3) sound_perm(3) [OF assms(2)])
  finally show ?thesis
    using assms(4) by (simp add: eval_size_def split_eval_returns [OF assms(1-3)])
qed

lemma eval_size_raises:
  assumes "rows \<noteq> []" and "rounded (length rows) (eval_ratio cfg) = Inl e"
  shows "eval_size perm rows rng cfg = Inl e"
  by (simp add: eval_size_def split_eval_raises [OF assms])

lemma rounded_tenth_40: "rounded 40 (to_double (1 / 10)) = Inr 4"
  by code_simp

lemma rounded_tenth_300: "rounded 300 (to_double (1 / 10)) = Inr 30"
  by code_simp

lemma mset_nths_partition: "mset (nths xs A) + mset (nths xs (- A)) = mset xs"
proof -
  let ?zs = "zip xs [0..<length xs]"
  have p: "mset ?zs = {#p \<in># mset ?zs. snd p \<in> A#} + {#p \<in># mset ?zs. snd p \<notin> A#}"
    by (rule multiset_partition)
  have "mset xs = mset (map fst ?zs)" by simp
  also have "\<dots> = image_mset fst (mset ?zs)" by (rule mset_map)
  also have "\<dots> = image_mset fst {#p \<in># mset ?zs. snd p \<in> A#}
                    + image_mset fst {#p \<in># mset ?zs. snd p \<notin> A#}"
    using arg_cong [OF p, of "image_mset fst"] by (simp only: image_mset_union)
  also have "\<dots> = mset (nths xs A) + mset (nths xs (- A))"
    by (simp add: nths_def)
  finally show ?thesis by simp
qed

text \<open>
  The rounding returns a number for every ratio from \<open>-1\<close> to 1 and every list a
  machine can hold: the conversion of the length and the product stay below the largest
  double.
\<close>

declare bit_length.simps [simp del]

lemma pow2_powi: "pow2 e = 2 powi e"
  by (simp add: pow2_def power_int_def inverse_eq_divide power_one_over)

lemma pow2_pos: "0 < pow2 e"
  by (simp add: pow2_powi)

lemma pow2_mono: "a \<le> b \<Longrightarrow> pow2 a \<le> pow2 b"
  by (simp add: pow2_powi power_int_increasing)

lemma pow2_less_cancel:
  assumes "pow2 a < pow2 b"
  shows "a < b"
proof (rule ccontr)
  assume "\<not> a < b"
  then have "pow2 b \<le> pow2 a" by (simp add: pow2_mono)
  with assms show False by simp
qed

lemma pow2_diff: "pow2 (a - b) = pow2 a / pow2 b"
  by (simp add: pow2_powi power_int_diff)

lemma pow2_nat: "0 \<le> e \<Longrightarrow> pow2 e = 2 ^ nat e"
  by (simp add: pow2_def)

lemma bit_length_bounds:
  "0 < n \<Longrightarrow> 1 \<le> bit_length n \<and> 2 ^ nat (bit_length n - 1) \<le> n \<and> n < 2 ^ nat (bit_length n)"
proof (induction n rule: bit_length.induct)
  case (1 n)
  have eq: "bit_length n = 1 + bit_length (n div 2)"
    using 1(2) by (subst bit_length.simps) simp
  show ?case
  proof (cases "n = 1")
    case True
    have "bit_length (1 div 2) = 0" by (subst bit_length.simps) simp
    with eq True have "bit_length n = 1" by simp
    with True show ?thesis by simp
  next
    case False
    with 1(2) have h: "0 < n div 2" by presburger
    from 1(2) have "\<not> n \<le> 0" by simp
    from 1(1) [OF this h] have b: "1 \<le> bit_length (n div 2)"
      and lo: "2 ^ nat (bit_length (n div 2) - 1) \<le> n div 2"
      and hi: "n div 2 < 2 ^ nat (bit_length (n div 2))" by simp_all
    define lo_pow :: int where "lo_pow = 2 ^ nat (bit_length (n div 2) - 1)"
    define hi_pow :: int where "hi_pow = 2 ^ nat (bit_length (n div 2))"
    have n1: "nat (bit_length n - 1) = Suc (nat (bit_length (n div 2) - 1))"
      using b by (simp add: eq Suc_nat_eq_nat_zadd1)
    have n2: "nat (bit_length n) = Suc (nat (bit_length (n div 2)))"
      using b by (simp add: eq Suc_nat_eq_nat_zadd1 add.commute)
    from lo have "lo_pow \<le> n div 2" by (simp add: lo_pow_def)
    then have l: "2 * lo_pow \<le> n" by presburger
    from hi have "n div 2 < hi_pow" by (simp add: hi_pow_def)
    then have u: "n < 2 * hi_pow" by presburger
    from b eq have "1 \<le> bit_length n" by simp
    moreover have "2 ^ nat (bit_length n - 1) \<le> n"
      unfolding n1 using l by (simp add: lo_pow_def)
    moreover have "n < 2 ^ nat (bit_length n)"
      unfolding n2 using u by (simp add: hi_pow_def)
    ultimately show ?thesis by simp
  qed
qed


lemma floor_log2_le:
  assumes "0 < a"
  shows "pow2 (floor_log2 a) \<le> a"
proof -
  obtain p q where pq: "quotient_of a = (p, q)" by (cases "quotient_of a") auto
  from quotient_of_denom_pos [OF pq] have q: "0 < q" .
  from quotient_of_div [OF pq] have a: "a = of_int p / of_int q" .
  from assms q have p: "0 < p" by (simp add: a zero_less_divide_iff)
  let ?k = "bit_length p - bit_length q"
  show ?thesis
  proof (cases "pow2 ?k \<le> a")
    case True
    then show ?thesis by (simp add: floor_log2_def pq Let_def)
  next
    case False
    from bit_length_bounds [OF p] have bp: "1 \<le> bit_length p"
      and lo: "2 ^ nat (bit_length p - 1) \<le> p" by simp_all
    from bit_length_bounds [OF q] have bq: "1 \<le> bit_length q"
      and hi: "q < 2 ^ nat (bit_length q)" by simp_all
    have "pow2 (bit_length p - 1) = of_int (2 ^ nat (bit_length p - 1))"
      using bp by (simp add: pow2_nat)
    also have "\<dots> \<le> of_int p" using lo by (simp only: of_int_le_iff)
    finally have num: "pow2 (bit_length p - 1) \<le> of_int p" .
    have "of_int q \<le> (of_int (2 ^ nat (bit_length q)) :: rat)"
      using hi by (simp only: of_int_le_iff)
    also have "\<dots> = pow2 (bit_length q)" using bq by (simp add: pow2_nat)
    finally have den: "of_int q \<le> pow2 (bit_length q)" .
    have "pow2 (?k - 1) = pow2 (bit_length p - 1) / pow2 (bit_length q)"
      using pow2_diff [of "bit_length p - 1" "bit_length q"] by (simp add: algebra_simps)
    also have "\<dots> \<le> of_int p / of_int q"
      by (rule frac_le) (use num den q pow2_pos [of "bit_length p - 1"] in simp_all)
    finally have "pow2 (?k - 1) \<le> a" by (simp add: a)
    with False show ?thesis by (simp add: floor_log2_def pq Let_def)
  qed
qed

lemma round_half_even_bounds:
  assumes "0 \<le> x"
  shows "0 \<le> round_half_even x" and "of_int (round_half_even x) \<le> 2 * x"
proof -
  let ?f = "\<lfloor>x\<rfloor>"
  from assms have f: "0 \<le> ?f" by simp
  have fx: "of_int ?f \<le> x" by simp
  show "0 \<le> round_half_even x"
    using f by (simp add: round_half_even_def Let_def)
  show "of_int (round_half_even x) \<le> 2 * x"
  proof (cases "x - of_int ?f < 1 / 2")
    case True
    then have "round_half_even x = ?f" by (simp add: round_half_even_def Let_def)
    with fx assms show ?thesis by linarith
  next
    case False
    then have half: "of_int ?f + 1 / 2 \<le> x" by simp
    have "round_half_even x \<le> ?f + 1" by (simp add: round_half_even_def Let_def)
    then have "(of_int (round_half_even x) :: rat) \<le> of_int (?f + 1)"
      by (simp only: of_int_le_iff)
    also have "\<dots> = of_int ?f + 1" by simp
    also have "\<dots> \<le> 2 * (of_int ?f + 1 / 2)" using f by simp
    also have "\<dots> \<le> 2 * x" using half by simp
    finally show ?thesis .
  qed
qed

lemma to_double_bound:
  assumes "to_double x = Finite y"
  shows "\<bar>y\<bar> \<le> 2 * \<bar>x\<bar>"
proof (cases "x = 0")
  case True
  with assms show ?thesis by (simp add: to_double_def)
next
  case False
  define e where "e = max (floor_log2 \<bar>x\<bar>) (- 1022)"
  define u where "u = pow2 (e - 52)"
  define m where "m = round_half_even (\<bar>x\<bar> / u)"
  have u: "0 < u" by (simp add: u_def pow2_pos)
  then have "0 \<le> \<bar>x\<bar> / u" by simp
  from round_half_even_bounds [OF this] have m0: "0 \<le> m" and m2: "of_int m \<le> 2 * (\<bar>x\<bar> / u)"
    by (simp_all add: m_def)
  from m2 u have mu: "of_int m * u \<le> 2 * \<bar>x\<bar>" by (simp add: pos_le_divide_eq [symmetric])
  from assms False have "y = of_int m * u \<or> y = - (of_int m * u)"
    by (auto simp: to_double_def Let_def e_def u_def m_def split: if_splits)
  moreover have "0 \<le> of_int m * u" using m0 u by simp
  ultimately have "\<bar>y\<bar> = of_int m * u" by auto
  with mu show ?thesis by simp
qed

lemma to_double_finite:
  assumes "\<bar>x\<bar> < pow2 1023"
  shows "\<exists>y. to_double x = Finite y"
proof (cases "x = 0")
  case True
  then show ?thesis by (simp add: to_double_def)
next
  case False
  then have "0 < \<bar>x\<bar>" by simp
  from floor_log2_le [OF this] assms have "pow2 (floor_log2 \<bar>x\<bar>) < pow2 1023" by simp
  then have "floor_log2 \<bar>x\<bar> < 1023" by (rule pow2_less_cancel)
  then have "\<not> 1024 \<le> max (floor_log2 \<bar>x\<bar>) (- 1022)"
    and "max (floor_log2 \<bar>x\<bar>) (- 1022) \<noteq> 1023"
    by (simp_all add: max_def)
  with False show ?thesis by (simp add: to_double_def Let_def)
qed

lemma rounded_total:
  assumes "\<bar>q\<bar> \<le> 1" and "n < 2 ^ 1000"
  shows "\<exists>r. rounded n (Finite q) = Inr r"
proof -
  from assms(2) have "rat_of_nat n < of_nat (2 ^ 1000)" by (simp only: of_nat_less_iff)
  also have "\<dots> = pow2 1000" by (simp add: pow2_def)
  finally have n: "rat_of_nat n < pow2 1000" .
  have "pow2 1000 \<le> pow2 1023" by (rule pow2_mono) simp
  with n have "\<bar>rat_of_nat n\<bar> < pow2 1023" by simp
  from to_double_finite [OF this] obtain a where a: "to_double (of_nat n) = Finite a" by blast
  from to_double_bound [OF a] have "\<bar>a\<bar> \<le> 2 * rat_of_nat n" by simp
  also have "\<dots> < 2 * pow2 1000" using n by simp
  also have "\<dots> = pow2 1001" using pow2_diff [of 1001 1000] by (simp add: pow2_def)
  finally have "\<bar>a\<bar> < pow2 1001" .
  moreover have "\<bar>a * q\<bar> \<le> \<bar>a\<bar>"
    using assms(1) by (simp add: abs_mult mult_left_le)
  moreover have "pow2 1001 \<le> pow2 1023" by (rule pow2_mono) simp
  ultimately have "\<bar>a * q\<bar> < pow2 1023" by simp
  from to_double_finite [OF this] obtain y where "to_double (a * q) = Finite y" by blast
  with a show ?thesis by (simp add: rounded_def)
qed

text \<open>
  Claim C7, as amended. On a non-empty list \<^verbatim>\<open>split_eval\<close> raises what the rounding of
  the float product raises (on a ratio that is not a number, or an infinite product).
  When the rounding gives \<open>r\<close>, and \<open>r\<close> raised to the minimum, then lowered to the
  number of rows, then lowered to the maximum when one is configured, is not negative,
  the eval subset has exactly that many rows. The clamped number is not negative when
  the minimum and the configured maximum are not negative. A configured maximum from 0
  up to the minimum and up to the number of rows is the number of eval rows. With the
  ratio 0.1 and the minimum 25, 40 rows give 25 and 300 rows give 30. For a ratio from
  \<open>-1\<close> to 1, fewer than \<open>2 ^ 1000\<close> rows and bounds that are not negative, the rounding
  gives a number and the eval subset has the clamped number of rows.
\<close>

theorem eval_size_clamp:
  assumes "rows \<noteq> []" and "sound perm"
  shows
    "(\<forall>e. rounded (length rows) (eval_ratio cfg) = Inl e \<longrightarrow>
        eval_size perm rows rng cfg = Inl e)
     \<and> (\<forall>r. rounded (length rows) (eval_ratio cfg) = Inr r \<and> 0 \<le> clamped r (length rows) cfg \<longrightarrow>
        eval_size perm rows rng cfg = Inr (clamped r (length rows) cfg))
     \<and> (\<forall>r. 0 \<le> min_eval_per_persona cfg \<and> (\<forall>m. max_eval_per_persona cfg = Some m \<longrightarrow> 0 \<le> m) \<longrightarrow>
        0 \<le> clamped r (length rows) cfg)
     \<and> (\<forall>r m. rounded (length rows) (eval_ratio cfg) = Inr r \<and> max_eval_per_persona cfg = Some m
          \<and> 0 \<le> m \<and> m \<le> min_eval_per_persona cfg \<and> m \<le> int (length rows) \<longrightarrow>
        eval_size perm rows rng cfg = Inr m)
     \<and> (eval_ratio cfg = to_double (1 / 10) \<and> min_eval_per_persona cfg = 25
          \<and> max_eval_per_persona cfg = None \<longrightarrow>
        (length rows = 40 \<longrightarrow> eval_size perm rows rng cfg = Inr 25)
        \<and> (length rows = 300 \<longrightarrow> eval_size perm rows rng cfg = Inr 30))
     \<and> (\<forall>q. eval_ratio cfg = Finite q \<and> \<bar>q\<bar> \<le> 1 \<and> length rows < 2 ^ 1000
          \<and> 0 \<le> min_eval_per_persona cfg \<and> (\<forall>m. max_eval_per_persona cfg = Some m \<longrightarrow> 0 \<le> m) \<longrightarrow>
        (\<exists>r. rounded (length rows) (eval_ratio cfg) = Inr r
           \<and> eval_size perm rows rng cfg = Inr (clamped r (length rows) cfg)))"
proof -
  have raises: "\<forall>e. rounded (length rows) (eval_ratio cfg) = Inl e \<longrightarrow>
        eval_size perm rows rng cfg = Inl e"
    by (simp add: eval_size_raises [OF assms(1)])
  have size: "\<forall>r. rounded (length rows) (eval_ratio cfg) = Inr r \<and> 0 \<le> clamped r (length rows) cfg \<longrightarrow>
        eval_size perm rows rng cfg = Inr (clamped r (length rows) cfg)"
    by (simp add: eval_size_returns [OF assms])
  have nonneg: "\<forall>r. 0 \<le> min_eval_per_persona cfg \<and> (\<forall>m. max_eval_per_persona cfg = Some m \<longrightarrow> 0 \<le> m) \<longrightarrow>
        0 \<le> clamped r (length rows) cfg"
    by (simp add: clamped_nonneg)
  have cap: "\<forall>r m. rounded (length rows) (eval_ratio cfg) = Inr r \<and> max_eval_per_persona cfg = Some m
          \<and> 0 \<le> m \<and> m \<le> min_eval_per_persona cfg \<and> m \<le> int (length rows) \<longrightarrow>
        eval_size perm rows rng cfg = Inr m"
  proof (intro allI impI, elim conjE)
    fix r m
    assume r: "rounded (length rows) (eval_ratio cfg) = Inr r"
      and m: "max_eval_per_persona cfg = Some m" "0 \<le> m" "m \<le> min_eval_per_persona cfg"
        "m \<le> int (length rows)"
    have c: "clamped r (length rows) cfg = m" using m(1,3,4) by (rule clamped_cap)
    from eval_size_returns [OF assms r] m(2) show "eval_size perm rows rng cfg = Inr m"
      by (simp add: c)
  qed
  have examples: "eval_ratio cfg = to_double (1 / 10) \<and> min_eval_per_persona cfg = 25
          \<and> max_eval_per_persona cfg = None \<longrightarrow>
        (length rows = 40 \<longrightarrow> eval_size perm rows rng cfg = Inr 25)
        \<and> (length rows = 300 \<longrightarrow> eval_size perm rows rng cfg = Inr 30)"
  proof (intro impI conjI, elim conjE)
    assume c: "eval_ratio cfg = to_double (1 / 10)" "min_eval_per_persona cfg = 25"
      "max_eval_per_persona cfg = None" and n: "length rows = 40"
    have r: "rounded (length rows) (eval_ratio cfg) = Inr 4"
      by (simp only: n c(1) rounded_tenth_40)
    have "clamped 4 (length rows) cfg = 25" by (simp add: clamped_def c n)
    with eval_size_returns [OF assms r] show "eval_size perm rows rng cfg = Inr 25" by simp
  next
    assume "eval_ratio cfg = to_double (1 / 10) \<and> min_eval_per_persona cfg = 25
          \<and> max_eval_per_persona cfg = None" and n: "length rows = 300"
    then have c: "eval_ratio cfg = to_double (1 / 10)" "min_eval_per_persona cfg = 25"
      "max_eval_per_persona cfg = None" by simp_all
    have r: "rounded (length rows) (eval_ratio cfg) = Inr 30"
      by (simp only: n c(1) rounded_tenth_300)
    have "clamped 30 (length rows) cfg = 30" by (simp add: clamped_def c n)
    with eval_size_returns [OF assms r] show "eval_size perm rows rng cfg = Inr 30" by simp
  qed
  have ordinary: "\<forall>q. eval_ratio cfg = Finite q \<and> \<bar>q\<bar> \<le> 1 \<and> length rows < 2 ^ 1000
          \<and> 0 \<le> min_eval_per_persona cfg \<and> (\<forall>m. max_eval_per_persona cfg = Some m \<longrightarrow> 0 \<le> m) \<longrightarrow>
        (\<exists>r. rounded (length rows) (eval_ratio cfg) = Inr r
           \<and> eval_size perm rows rng cfg = Inr (clamped r (length rows) cfg))"
  proof (intro allI impI, elim conjE)
    fix q
    assume q: "eval_ratio cfg = Finite q" "\<bar>q\<bar> \<le> 1" and n: "length rows < 2 ^ 1000"
      and b: "0 \<le> min_eval_per_persona cfg" "\<forall>m. max_eval_per_persona cfg = Some m \<longrightarrow> 0 \<le> m"
    from rounded_total [OF q(2) n] obtain r where
      r: "rounded (length rows) (eval_ratio cfg) = Inr r" by (auto simp: q(1))
    from b have "0 \<le> clamped r (length rows) cfg" by (rule clamped_nonneg)
    from eval_size_returns [OF assms r this] r
    show "\<exists>r. rounded (length rows) (eval_ratio cfg) = Inr r
           \<and> eval_size perm rows rng cfg = Inr (clamped r (length rows) cfg)"
      by blast
  qed
  from raises size nonneg cap examples ordinary show ?thesis by (intro conjI)
qed

lemma forty: "[0..<40] \<noteq> []" "length [0..<40] = 40"
  by simp_all

lemma three_hundred: "[0..<300] \<noteq> []" "length [0..<300] = 300"
  by simp_all

lemma three_rows: "[10, 20, 30 :: nat] \<noteq> []"
  by simp

lemma default_cfg_fields:
  "eval_ratio default_cfg = to_double (1 / 10) \<and> min_eval_per_persona default_cfg = 25
   \<and> max_eval_per_persona default_cfg = None"
  by (simp add: default_cfg_def)

lemma capped_40:
  "rounded (length [0..<40]) (eval_ratio (capped_cfg 5)) = Inr 4
   \<and> max_eval_per_persona (capped_cfg 5) = Some 5 \<and> 0 \<le> (5 :: int)
   \<and> 5 \<le> min_eval_per_persona (capped_cfg 5) \<and> 5 \<le> int (length [0..<40])"
  by (simp add: capped_cfg_def default_cfg_def rounded_tenth_40)

lemma forty_five: "[0..<45] \<noteq> []"
  by simp

lemma seven_tenths:
  "rounded (length [0..<45])
     (eval_ratio (default_cfg\<lparr>eval_ratio := to_double (7 / 10), min_eval_per_persona := 0\<rparr>))
     = Inr 31
   \<and> 0 \<le> clamped 31 (length [0..<45])
          (default_cfg\<lparr>eval_ratio := to_double (7 / 10), min_eval_per_persona := 0\<rparr>)"
  by code_simp

lemma seven_tenths_clamped:
  "clamped 31 (length [0..<45])
     (default_cfg\<lparr>eval_ratio := to_double (7 / 10), min_eval_per_persona := 0\<rparr>) = 31"
  by code_simp

lemma rounded_nan:
  "rounded (length [10, 20, 30 :: nat]) (eval_ratio (default_cfg\<lparr>eval_ratio := NaN\<rparr>))
     = Inl ValueError"
  by code_simp

lemma rounded_inf:
  "rounded (length [10, 20, 30 :: nat]) (eval_ratio (default_cfg\<lparr>eval_ratio := PosInf\<rparr>))
     = Inl OverflowError"
  by code_simp

theorem eval_size_clamp_witness:
  "eval_size reversal [0..<40] () default_cfg = Inr 25
   \<and> eval_size reversal [0..<300] () default_cfg = Inr 30
   \<and> eval_size reversal [0..<40] () (capped_cfg 5) = Inr 5
   \<and> eval_size reversal [0..<45] ()
        (default_cfg\<lparr>eval_ratio := to_double (7 / 10), min_eval_per_persona := 0\<rparr>) = Inr 31
   \<and> eval_size reversal [10, 20, 30 :: nat] () (default_cfg\<lparr>eval_ratio := NaN\<rparr>) = Inl ValueError
   \<and> eval_size reversal [10, 20, 30 :: nat] () (default_cfg\<lparr>eval_ratio := PosInf\<rparr>)
       = Inl OverflowError"
proof -
  note at_40 = eval_size_clamp [OF forty(1) sound_reversal, where rng = "()"]
  note at_300 = eval_size_clamp [OF three_hundred(1) sound_reversal, where rng = "()"]
  note at_3 = eval_size_clamp [OF three_rows sound_reversal, where rng = "()"]
  have a: "eval_size reversal [0..<40] () default_cfg = Inr 25"
    by (rule at_40 [where cfg = default_cfg, THEN conjunct2, THEN conjunct2, THEN conjunct2,
                    THEN conjunct2, THEN conjunct1, rule_format, OF default_cfg_fields,
                    THEN conjunct1, rule_format, OF forty(2)])
  have b: "eval_size reversal [0..<300] () default_cfg = Inr 30"
    by (rule at_300 [where cfg = default_cfg, THEN conjunct2, THEN conjunct2, THEN conjunct2,
                     THEN conjunct2, THEN conjunct1, rule_format, OF default_cfg_fields,
                     THEN conjunct2, rule_format, OF three_hundred(2)])
  have c: "eval_size reversal [0..<40] () (capped_cfg 5) = Inr 5"
    by (rule at_40 [where cfg = "capped_cfg 5", THEN conjunct2, THEN conjunct2, THEN conjunct2,
                    THEN conjunct1, rule_format, OF capped_40])
  have "eval_size reversal [0..<45] ()
        (default_cfg\<lparr>eval_ratio := to_double (7 / 10), min_eval_per_persona := 0\<rparr>)
          = Inr (clamped 31 (length [0..<45])
                   (default_cfg\<lparr>eval_ratio := to_double (7 / 10), min_eval_per_persona := 0\<rparr>))"
    by (rule eval_size_clamp [OF forty_five sound_reversal, where rng = "()",
                              THEN conjunct2, THEN conjunct1, rule_format, OF seven_tenths])
  then have f: "eval_size reversal [0..<45] ()
        (default_cfg\<lparr>eval_ratio := to_double (7 / 10), min_eval_per_persona := 0\<rparr>) = Inr 31"
    by (simp only: seven_tenths_clamped)
  have d: "eval_size reversal [10, 20, 30 :: nat] () (default_cfg\<lparr>eval_ratio := NaN\<rparr>)
             = Inl ValueError"
    by (rule at_3 [where cfg = "default_cfg\<lparr>eval_ratio := NaN\<rparr>", THEN conjunct1, rule_format,
                   OF rounded_nan])
  have e: "eval_size reversal [10, 20, 30 :: nat] () (default_cfg\<lparr>eval_ratio := PosInf\<rparr>)
             = Inl OverflowError"
    by (rule at_3 [where cfg = "default_cfg\<lparr>eval_ratio := PosInf\<rparr>", THEN conjunct1,
                   rule_format, OF rounded_inf])
  from a b c f d e show ?thesis by (intro conjI)
qed

text \<open>
  The claim as written fails for a negative maximum: the rounded product of three rows
  is 0, the clamp gives \<open>-1\<close>, and the eval subset has two rows.
\<close>

theorem eval_size_clamp_counterexample:
  "rounded 3 (eval_ratio (capped_cfg (- 1))) = Inr 0
   \<and> clamped 0 3 (capped_cfg (- 1)) = - 1
   \<and> eval_size reversal [10, 20, 30 :: nat] () (capped_cfg (- 1)) = Inr 2"
  by code_simp

text \<open>
  Claim C8, as amended. On an empty list \<^verbatim>\<open>split_eval\<close> returns two empty lists. On a
  non-empty list it raises what the rounding raises; when the rounding gives a number,
  it returns two subsequences of the rows (so each in the order of the original list)
  that together hold every row exactly once, and the generator after the shuffle of the
  indices. When the clamped number is not negative, the eval rows are the rows at the
  positions that the first so many shuffled indices name, and the remaining rows are
  the rows at all other positions. For a ratio from \<open>-1\<close> to 1 and fewer than
  \<open>2 ^ 1000\<close> rows the rounding gives a number, so a pair is returned.
\<close>

theorem split_eval_partition:
  "split_eval perm [] rng cfg = Inr (([], []), rng)
   \<and> (rows \<noteq> [] \<and> sound perm \<longrightarrow>
        (\<forall>e. rounded (length rows) (eval_ratio cfg) = Inl e \<longrightarrow>
           split_eval perm rows rng cfg = Inl e)
        \<and> (\<forall>r. rounded (length rows) (eval_ratio cfg) = Inr r \<longrightarrow>
             (\<exists>ev tr. split_eval perm rows rng cfg = Inr ((ev, tr), snd (perm rng (length rows)))
                \<and> mset ev + mset tr = mset rows \<and> subseq ev rows \<and> subseq tr rows))
        \<and> (\<forall>r. rounded (length rows) (eval_ratio cfg) = Inr r
                \<and> 0 \<le> clamped r (length rows) cfg \<longrightarrow>
             split_eval perm rows rng cfg =
               Inr ((nths rows (set (take (nat (clamped r (length rows) cfg))
                                       (fst (perm rng (length rows))))),
                     nths rows (- set (take (nat (clamped r (length rows) cfg))
                                         (fst (perm rng (length rows)))))),
                    snd (perm rng (length rows))))
        \<and> (\<forall>q. eval_ratio cfg = Finite q \<and> \<bar>q\<bar> \<le> 1 \<and> length rows < 2 ^ 1000 \<longrightarrow>
             (\<exists>ev tr. split_eval perm rows rng cfg = Inr ((ev, tr), snd (perm rng (length rows)))
                \<and> mset ev + mset tr = mset rows \<and> subseq ev rows \<and> subseq tr rows)))"
proof -
  have empty: "split_eval perm [] rng cfg = Inr (([], []), rng)"
    by (simp add: split_eval_def)
  have parts: "(\<forall>e. rounded (length rows) (eval_ratio cfg) = Inl e \<longrightarrow>
           split_eval perm rows rng cfg = Inl e)
        \<and> (\<forall>r. rounded (length rows) (eval_ratio cfg) = Inr r \<longrightarrow>
             (\<exists>ev tr. split_eval perm rows rng cfg = Inr ((ev, tr), snd (perm rng (length rows)))
                \<and> mset ev + mset tr = mset rows \<and> subseq ev rows \<and> subseq tr rows))
        \<and> (\<forall>r. rounded (length rows) (eval_ratio cfg) = Inr r
                \<and> 0 \<le> clamped r (length rows) cfg \<longrightarrow>
             split_eval perm rows rng cfg =
               Inr ((nths rows (set (take (nat (clamped r (length rows) cfg))
                                       (fst (perm rng (length rows))))),
                     nths rows (- set (take (nat (clamped r (length rows) cfg))
                                         (fst (perm rng (length rows)))))),
                    snd (perm rng (length rows))))
        \<and> (\<forall>q. eval_ratio cfg = Finite q \<and> \<bar>q\<bar> \<le> 1 \<and> length rows < 2 ^ 1000 \<longrightarrow>
             (\<exists>ev tr. split_eval perm rows rng cfg = Inr ((ev, tr), snd (perm rng (length rows)))
                \<and> mset ev + mset tr = mset rows \<and> subseq ev rows \<and> subseq tr rows))"
    if ne: "rows \<noteq> []" and s: "sound perm"
  proof -
    have returned: "\<exists>ev tr. split_eval perm rows rng cfg
                       = Inr ((ev, tr), snd (perm rng (length rows)))
                \<and> mset ev + mset tr = mset rows \<and> subseq ev rows \<and> subseq tr rows"
      if r: "rounded (length rows) (eval_ratio cfg) = Inr r" for r
    proof -
      let ?chosen = "set (slice_to (fst (perm rng (length rows))) (clamped r (length rows) cfg))"
      have "split_eval perm rows rng cfg =
              Inr ((nths rows ?chosen, nths rows (- ?chosen)), snd (perm rng (length rows)))"
        by (rule split_eval_returns [OF ne s r])
      moreover have "mset (nths rows ?chosen) + mset (nths rows (- ?chosen)) = mset rows"
        by (rule mset_nths_partition)
      moreover have "subseq (nths rows ?chosen) rows" "subseq (nths rows (- ?chosen)) rows"
        by (auto simp: subseq_conv_nths)
      ultimately show ?thesis by blast
    qed
    show ?thesis
    proof (intro conjI allI impI)
      fix e
      assume "rounded (length rows) (eval_ratio cfg) = Inl e"
      with ne show "split_eval perm rows rng cfg = Inl e" by (rule split_eval_raises)
    next
      fix r
      assume "rounded (length rows) (eval_ratio cfg) = Inr r"
      then show "\<exists>ev tr. split_eval perm rows rng cfg
                         = Inr ((ev, tr), snd (perm rng (length rows)))
                  \<and> mset ev + mset tr = mset rows \<and> subseq ev rows \<and> subseq tr rows"
        by (rule returned)
    next
      fix q
      assume "eval_ratio cfg = Finite q \<and> \<bar>q\<bar> \<le> 1 \<and> length rows < 2 ^ 1000"
      then have q: "eval_ratio cfg = Finite q" "\<bar>q\<bar> \<le> 1" and n: "length rows < 2 ^ 1000"
        by simp_all
      from rounded_total [OF q(2) n] obtain r where
        "rounded (length rows) (eval_ratio cfg) = Inr r" by (auto simp: q(1))
      then show "\<exists>ev tr. split_eval perm rows rng cfg
                         = Inr ((ev, tr), snd (perm rng (length rows)))
                  \<and> mset ev + mset tr = mset rows \<and> subseq ev rows \<and> subseq tr rows"
        by (rule returned)
    next
      fix r
      assume "rounded (length rows) (eval_ratio cfg) = Inr r \<and> 0 \<le> clamped r (length rows) cfg"
      then have r: "rounded (length rows) (eval_ratio cfg) = Inr r"
        and c: "0 \<le> clamped r (length rows) cfg" by simp_all
      from c have "slice_to (fst (perm rng (length rows))) (clamped r (length rows) cfg)
                     = take (nat (clamped r (length rows) cfg)) (fst (perm rng (length rows)))"
        by (simp add: slice_to_def)
      with split_eval_returns [OF ne s r, of rng]
      show "split_eval perm rows rng cfg =
                 Inr ((nths rows (set (take (nat (clamped r (length rows) cfg))
                                         (fst (perm rng (length rows))))),
                       nths rows (- set (take (nat (clamped r (length rows) cfg))
                                           (fst (perm rng (length rows)))))),
                      snd (perm rng (length rows)))"
        by simp
    qed
  qed
  from empty parts show ?thesis by blast
qed

lemma five_rows: "[10, 20, 30, 40, 50 :: nat] \<noteq> []"
  by simp

lemma pair_5:
  "rounded (length [10, 20, 30, 40, 50 :: nat]) (eval_ratio pair_cfg) = Inr 0
   \<and> 0 \<le> clamped 0 (length [10, 20, 30, 40, 50 :: nat]) pair_cfg"
  by code_simp

lemma first_two:
  "nths [10, 20, 30, 40, 50 :: nat]
     (set (take (nat (clamped 0 (length [10, 20, 30, 40, 50 :: nat]) pair_cfg))
             (fst (reversal () (length [10, 20, 30, 40, 50 :: nat]))))) = [40, 50]"
  "nths [10, 20, 30, 40, 50 :: nat]
     (- set (take (nat (clamped 0 (length [10, 20, 30, 40, 50 :: nat]) pair_cfg))
               (fst (reversal () (length [10, 20, 30, 40, 50 :: nat]))))) = [10, 20, 30]"
  "snd (reversal () (length [10, 20, 30, 40, 50 :: nat])) = ()"
  by code_simp+

lemma first_two_indices: "take (nat 2) (fst (reversal () 5)) = [4, 3]"
  by code_simp

theorem split_eval_partition_witness:
  "split_eval reversal [10, 20, 30, 40, 50 :: nat] () pair_cfg = Inr (([40, 50], [10, 20, 30]), ())
   \<and> take (nat 2) (fst (reversal () 5)) = [4, 3]
   \<and> split_eval reversal [10, 20, 30 :: nat] () (default_cfg\<lparr>eval_ratio := NaN\<rparr>) = Inl ValueError
   \<and> split_eval reversal ([] :: nat list) () pair_cfg = Inr (([], []), ())"
proof -
  have "split_eval reversal [10, 20, 30, 40, 50 :: nat] () pair_cfg =
     Inr ((nths [10, 20, 30, 40, 50 :: nat]
             (set (take (nat (clamped 0 (length [10, 20, 30, 40, 50 :: nat]) pair_cfg))
                     (fst (reversal () (length [10, 20, 30, 40, 50 :: nat]))))),
           nths [10, 20, 30, 40, 50 :: nat]
             (- set (take (nat (clamped 0 (length [10, 20, 30, 40, 50 :: nat]) pair_cfg))
                       (fst (reversal () (length [10, 20, 30, 40, 50 :: nat])))))),
          snd (reversal () (length [10, 20, 30, 40, 50 :: nat])))"
    by (rule split_eval_partition
          [where perm = reversal and rng = "()" and rows = "[10, 20, 30, 40, 50 :: nat]"
             and cfg = pair_cfg, THEN conjunct2, rule_format,
           OF conjI [OF five_rows sound_reversal], THEN conjunct2, THEN conjunct2,
           THEN conjunct1, rule_format, OF pair_5])
  then have a: "split_eval reversal [10, 20, 30, 40, 50 :: nat] () pair_cfg
             = Inr (([40, 50], [10, 20, 30]), ())"
    by (simp only: first_two)
  have b: "split_eval reversal [10, 20, 30 :: nat] () (default_cfg\<lparr>eval_ratio := NaN\<rparr>)
             = Inl ValueError"
    by (rule split_eval_partition
          [where perm = reversal and rng = "()" and rows = "[10, 20, 30 :: nat]"
             and cfg = "default_cfg\<lparr>eval_ratio := NaN\<rparr>", THEN conjunct2, rule_format,
           OF conjI [OF three_rows sound_reversal], THEN conjunct1, rule_format,
           OF rounded_nan])
  have c: "split_eval reversal ([] :: nat list) () pair_cfg = Inr (([], []), ())"
    by (rule split_eval_partition
          [where perm = reversal and rng = "()" and rows = "[] :: nat list" and cfg = pair_cfg,
           THEN conjunct1])
  from a first_two_indices b c show ?thesis by (intro conjI)
qed

text \<open>
  The claim as written fails for a negative maximum: the clamped number is \<open>-1\<close>, no
  index is among the first \<open>-1\<close> of the shuffled indices, yet the eval subset holds two of
  the three rows.
\<close>

theorem split_eval_partition_counterexample:
  "rounded 3 (eval_ratio (capped_cfg (- 1))) = Inr 0
   \<and> clamped 0 3 (capped_cfg (- 1)) = - 1
   \<and> fst (reversal () 3) = [2, 1, 0]
   \<and> nths [10, 20, 30 :: nat] (set (take (nat (- 1)) [2, 1, 0])) = []
   \<and> split_eval reversal [10, 20, 30 :: nat] () (capped_cfg (- 1)) = Inr (([20, 30], [10]), ())"
  by code_simp






subsection \<open>All personas\<close>


















lemma sound_rotor: "sound rotor"
proof -
  have "mset (drop k xs @ take k xs) = mset xs" for k and xs :: "nat list"
    by (metis append_take_drop_id mset_append union_commute)
  then have "mset (fst (rotor g n)) = mset [0..<n]" for g n
    by (cases "n = 0") (simp_all only: rotor_def Let_def fst_conv if_True if_False upt_0 refl)
  then show ?thesis unfolding sound_def by blast
qed










end
